theory Spec2Isabelle
  imports Main "HOL-Library.FSet"
begin

section \<open>Paths\<close>

text \<open>
  Paths are JavaScript strings. The controlled system computes the parent of a path with
  \<^verbatim>\<open>posix.dirname\<close> of Node's \<^verbatim>\<open>path\<close> module, which is transcribed here:
  \<^verbatim>\<open>
  dirname(path) {
    if (path.length === 0) return '.';
    const hasRoot = path.charCodeAt(0) === 47 /*/*/;
    let end = -1;
    let matchedSlash = true;
    for (let i = path.length - 1; i >= 1; --i) {
      if (path.charCodeAt(i) === 47 /*/*/) {
        if (!matchedSlash) { end = i; break; }
      } else {
        matchedSlash = false;
      }
    }
    if (end === -1) return hasRoot ? '/' : '.';
    if (hasRoot && end === 1) return '//';
    return path.slice(0, end);
  }
  \<close>
  \<open>lastSeparator path i matchedSlash\<close> is the \<^verbatim>\<open>for\<close> loop entered at index \<open>i\<close>; it
  returns \<open>None\<close> for \<^verbatim>\<open>end === -1\<close>. It is only called with \<open>i < length path\<close>.
\<close>

type_synonym path = string

fun lastSeparator :: "string \<Rightarrow> nat \<Rightarrow> bool \<Rightarrow> nat option" where
  "lastSeparator path 0 matchedSlash = None"
| "lastSeparator path (Suc j) matchedSlash =
     (if path ! Suc j = CHR ''/''
      then (if \<not> matchedSlash then Some (Suc j) else lastSeparator path j matchedSlash)
      else lastSeparator path j False)"

definition dirname :: "string \<Rightarrow> string" where
  "dirname path =
     (if length path = 0 then ''.''
      else let hasRoot = (path ! 0 = CHR ''/'') in
        (case lastSeparator path (length path - 1) True of
           None \<Rightarrow> (if hasRoot then ''/'' else ''.'')
         | Some e \<Rightarrow> (if hasRoot \<and> e = 1 then ''//'' else take e path)))"

text \<open>The measure under which the ancestor walk of \<open>invokeDirectoryWatchers\<close> descends.\<close>

definition pathRank :: "string \<Rightarrow> nat" where
  "pathRank d = (if d = ''.'' then 0 else if d = [] then 2 else length d)"

section \<open>The state of a controlled system\<close>

text \<open>
  A callback is a JavaScript function value; the registry compares callbacks by identity
  (\<^verbatim>\<open>watcher !== callback\<close>), so a callback is modelled by its identity. What a callback
  does when it is called is given by the environment below. A \<^verbatim>\<open>timeoutId\<close> is the identity
  of the \<^verbatim>\<open>Immediate\<close> object that \<^verbatim>\<open>setImmediate\<close> returns.
\<close>

type_synonym callback = nat
type_synonym timeoutId = nat
type_synonym arg = nat

datatype FileWatcherEventKind = Created | Changed | Deleted

text \<open>
  An entry of Node's queue of immediates: the closure that \<^verbatim>\<open>setTimeout\<close> of the controlled
  system hands to \<^verbatim>\<open>setImmediate\<close> (it holds the callback and its arguments), or the
  \<^verbatim>\<open>resolve\<close> function that \<^verbatim>\<open>waitForQueued\<close> hands to it.
\<close>

datatype immediate = TimeoutTask callback "arg list" | Resolve

text \<open>
  The closure variables of \<^verbatim>\<open>createControlledTypeScriptSystem\<close>, together with the part of
  the runtime they are used with: the content store \<^verbatim>\<open>fileSystem\<close> (of an abstract type
  \<open>'fs\<close>: \<^verbatim>\<open>PassiveFileSystem\<close> is not part of the sources) and Node's queue of immediates.
  The arrays held by the three registries are never mutated in place: \<^verbatim>\<open>createWatcher\<close> and
  \<^verbatim>\<open>close\<close> build a new array and store it under the path, so an array is a value (a list).
\<close>

record 'fs world =
  fileWatchersMap :: "path \<rightharpoonup> callback list"
  directoryWatchersMap :: "path \<rightharpoonup> callback list"
  recursiveDirectoryWatchersMap :: "path \<rightharpoonup> callback list"
  deletedFiles :: "path \<rightharpoonup> bool"
  timeoutCallbacks :: "timeoutId fset"
  fileSystem :: 'fs
  immediateQueue :: "(timeoutId \<times> immediate) list"
  nextImmediate :: timeoutId

text \<open>
  A call either returns or throws; in both cases the mutations made so far persist.
\<close>

datatype 'a result = Returned 'a | Threw 'a

fun stateOf :: "'a result \<Rightarrow> 'a" where
  "stateOf (Returned s) = s"
| "stateOf (Threw s) = s"

fun isReturned :: "'a result \<Rightarrow> bool" where
  "isReturned (Returned s) = True"
| "isReturned (Threw s) = False"

definition andThen :: "'s result \<Rightarrow> ('s \<Rightarrow> 's result) \<Rightarrow> 's result" where
  "andThen r f = (case r of Returned s \<Rightarrow> f s | Threw s \<Rightarrow> Threw s)"

text \<open>
  The surroundings of the controlled system: path normalisation and the mutators of the
  content store (taken as parameters), and the behaviour of every callback. A callback
  is arbitrary code: it may change the whole world, registries included, and it may throw.
\<close>

record 'fs env =
  normalizePath :: "path \<Rightarrow> path"
  storeWriteFile :: "path \<Rightarrow> string \<Rightarrow> 'fs \<Rightarrow> 'fs"
  storeDeleteFile :: "path \<Rightarrow> 'fs \<Rightarrow> 'fs"
  storeCreateDir :: "path \<Rightarrow> 'fs \<Rightarrow> 'fs"
  storeUpdateTimes :: "path \<Rightarrow> nat \<Rightarrow> nat \<Rightarrow> 'fs \<Rightarrow> 'fs"
  fileWatcherCallback :: "callback \<Rightarrow> path \<Rightarrow> FileWatcherEventKind \<Rightarrow> 'fs world \<Rightarrow> 'fs world result"
  directoryWatcherCallback :: "callback \<Rightarrow> path \<Rightarrow> 'fs world \<Rightarrow> 'fs world result"
  timeoutCallback :: "callback \<Rightarrow> arg list \<Rightarrow> 'fs world \<Rightarrow> 'fs world result"

text \<open>
  The calls the controlled system itself makes are recorded, in order, in a trace that
  no callback can reach: a run is a world together with the trace so far.
\<close>

datatype call =
    FileWatcherCall callback path FileWatcherEventKind
  | DirectoryWatcherCall callback path
  | TimeoutCall callback "arg list"

type_synonym 'fs run = "'fs world \<times> call list"

definition logged :: "call \<Rightarrow> call list \<Rightarrow> 'fs world result \<Rightarrow> 'fs run result" where
  "logged c tr res =
     (case res of Returned w \<Rightarrow> Returned (w, tr @ [c]) | Threw w \<Rightarrow> Threw (w, tr @ [c]))"

fun callFileWatcher :: "'fs env \<Rightarrow> path \<Rightarrow> FileWatcherEventKind \<Rightarrow> callback \<Rightarrow> 'fs run \<Rightarrow> 'fs run result" where
  "callFileWatcher env path event fileWatcher (w, tr) =
     logged (FileWatcherCall fileWatcher path event) tr (fileWatcherCallback env fileWatcher path event w)"

fun callDirectoryWatcher :: "'fs env \<Rightarrow> path \<Rightarrow> callback \<Rightarrow> 'fs run \<Rightarrow> 'fs run result" where
  "callDirectoryWatcher env path directoryWatcher (w, tr) =
     logged (DirectoryWatcherCall directoryWatcher path) tr (directoryWatcherCallback env directoryWatcher path w)"

fun callTimeout :: "'fs env \<Rightarrow> callback \<Rightarrow> arg list \<Rightarrow> 'fs run \<Rightarrow> 'fs run result" where
  "callTimeout env cb args (w, tr) =
     logged (TimeoutCall cb args) tr (timeoutCallback env cb args w)"

text \<open>\<^verbatim>\<open>Array.prototype.forEach\<close>: an exception thrown by the function ends the iteration.\<close>

fun forEach :: "('a \<Rightarrow> 's \<Rightarrow> 's result) \<Rightarrow> 'a list \<Rightarrow> 's \<Rightarrow> 's result" where
  "forEach f [] s = Returned s"
| "forEach f (x # xs) s =
     (case f x s of Returned s' \<Rightarrow> forEach f xs s' | Threw s' \<Rightarrow> Threw s')"

section \<open>The watcher registry\<close>

text \<open>
  \<^verbatim>\<open>createWatcher(watchersMap, path, callback)\<close> and the \<^verbatim>\<open>close\<close> closure it returns, as
  functions on the registry they update. \<^verbatim>\<open>watchersMap.get(path) || []\<close> is the stored array
  when there is one (an array is truthy) and the empty array otherwise.
\<close>

definition watchersAt :: "(path \<rightharpoonup> 'c list) \<Rightarrow> path \<Rightarrow> 'c list" where
  "watchersAt watchersMap path = (case watchersMap path of Some watchers \<Rightarrow> watchers | None \<Rightarrow> [])"

definition createWatcher :: "(path \<rightharpoonup> 'c list) \<Rightarrow> path \<Rightarrow> 'c \<Rightarrow> (path \<rightharpoonup> 'c list)" where
  "createWatcher watchersMap path cb =
     (let watchers = watchersAt watchersMap path;
          nextWatchers = watchers @ [cb]
      in watchersMap(path \<mapsto> nextWatchers))"

definition closeWatcher :: "(path \<rightharpoonup> 'c list) \<Rightarrow> path \<Rightarrow> 'c \<Rightarrow> (path \<rightharpoonup> 'c list)" where
  "closeWatcher watchersMap path cb =
     (let watchers = watchersAt watchersMap path;
          nextWatchers = filter (\<lambda>watcher. watcher \<noteq> cb) watchers
      in if length nextWatchers > 0 then watchersMap(path \<mapsto> nextWatchers)
         else watchersMap(path := None))"

text \<open>
  The handle returned by \<^verbatim>\<open>watchFile\<close> and \<^verbatim>\<open>watchDirectory\<close>: its \<^verbatim>\<open>close\<close> closure captures
  the registry, the normalised path and the callback, and nothing else.
\<close>

datatype registry = FileWatchers | DirectoryWatchers | RecursiveDirectoryWatchers

datatype watcher = Watcher registry path callback

definition watchFile :: "'fs env \<Rightarrow> path \<Rightarrow> callback \<Rightarrow> 'fs world \<Rightarrow> watcher \<times> 'fs world" where
  "watchFile env path cb w =
     (Watcher FileWatchers (normalizePath env path) cb,
      w\<lparr>fileWatchersMap := createWatcher (fileWatchersMap w) (normalizePath env path) cb\<rparr>)"

definition watchDirectory :: "'fs env \<Rightarrow> path \<Rightarrow> callback \<Rightarrow> bool \<Rightarrow> 'fs world \<Rightarrow> watcher \<times> 'fs world" where
  "watchDirectory env path cb recursive w =
     (if recursive
      then (Watcher RecursiveDirectoryWatchers (normalizePath env path) cb,
            w\<lparr>recursiveDirectoryWatchersMap :=
                 createWatcher (recursiveDirectoryWatchersMap w) (normalizePath env path) cb\<rparr>)
      else (Watcher DirectoryWatchers (normalizePath env path) cb,
            w\<lparr>directoryWatchersMap :=
                 createWatcher (directoryWatchersMap w) (normalizePath env path) cb\<rparr>))"

fun close :: "watcher \<Rightarrow> 'fs world \<Rightarrow> 'fs world" where
  "close (Watcher FileWatchers path cb) w =
     w\<lparr>fileWatchersMap := closeWatcher (fileWatchersMap w) path cb\<rparr>"
| "close (Watcher DirectoryWatchers path cb) w =
     w\<lparr>directoryWatchersMap := closeWatcher (directoryWatchersMap w) path cb\<rparr>"
| "close (Watcher RecursiveDirectoryWatchers path cb) w =
     w\<lparr>recursiveDirectoryWatchersMap := closeWatcher (recursiveDirectoryWatchersMap w) path cb\<rparr>"

section \<open>Notifications\<close>

fun invokeFileWatchers :: "'fs env \<Rightarrow> path \<Rightarrow> FileWatcherEventKind \<Rightarrow> 'fs run \<Rightarrow> 'fs run result" where
  "invokeFileWatchers env path event (w, tr) =
     (case fileWatchersMap w path of
        Some fileWatchers \<Rightarrow> forEach (callFileWatcher env path event) fileWatchers (w, tr)
      | None \<Rightarrow> Returned (w, tr))"

fun notifyDirectory :: "'fs env \<Rightarrow> path \<Rightarrow> path \<Rightarrow> 'fs run \<Rightarrow> 'fs run result" where
  "notifyDirectory env path directory (w, tr) =
     (case directoryWatchersMap w directory of
        Some directoryWatchers \<Rightarrow> forEach (callDirectoryWatcher env path) directoryWatchers (w, tr)
      | None \<Rightarrow> Returned (w, tr))"

fun notifyRecursive :: "'fs env \<Rightarrow> path \<Rightarrow> path \<Rightarrow> 'fs run \<Rightarrow> 'fs run result" where
  "notifyRecursive env path directory (w, tr) =
     (case recursiveDirectoryWatchersMap w directory of
        Some recursiveDirectoryWatchers \<Rightarrow>
          forEach (callDirectoryWatcher env path) recursiveDirectoryWatchers (w, tr)
      | None \<Rightarrow> Returned (w, tr))"

text \<open>
  The \<^verbatim>\<open>while\<close> loop of \<^verbatim>\<open>invokeDirectoryWatchers\<close>, entered with the current \<open>directory\<close>:
  the registry is read anew at every iteration.
\<close>

function ancestorWalk :: "'fs env \<Rightarrow> path \<Rightarrow> path \<Rightarrow> 'fs run \<Rightarrow> 'fs run result" where
  "ancestorWalk env path directory r =
     (if directory \<noteq> dirname directory
      then (case notifyRecursive env path directory r of
              Returned r' \<Rightarrow> ancestorWalk env path (dirname directory) r'
            | Threw r' \<Rightarrow> Threw r')
      else Returned r)"
  by pat_completeness auto

lemma lastSeparator_bounds:
  "lastSeparator p i m = Some e \<Longrightarrow> 1 \<le> e \<and> e \<le> i \<and> (m \<longrightarrow> e < i)"
  by (induction p i m rule: lastSeparator.induct) (auto split: if_splits)

lemma dirname_rank: "dirname d \<noteq> d \<Longrightarrow> pathRank (dirname d) < pathRank d"
proof (cases d)
  case Nil
  then show ?thesis by (simp add: dirname_def pathRank_def)
next
  case (Cons c cs)
  assume neq: "dirname d \<noteq> d"
  show ?thesis
  proof (cases "lastSeparator d (length d - 1) True")
    case None
    with Cons neq show ?thesis
      by (cases cs) (auto simp: dirname_def pathRank_def Let_def split: if_splits)
  next
    case (Some e)
    from lastSeparator_bounds[OF Some] have b: "1 \<le> e" "e < length d - 1" by auto
    then have len: "3 \<le> length d" by arith
    have "length (take e d) = e" using b by simp
    then have r: "pathRank (take e d) \<le> e" using b
      by (auto simp: pathRank_def)
    have "pathRank d = length d" using len by (auto simp: pathRank_def)
    moreover have "pathRank ''//'' = 2" by (simp add: pathRank_def)
    ultimately show ?thesis using Some Cons b r len
      by (auto simp: dirname_def Let_def)
  qed
qed

termination ancestorWalk
  by (relation "measure (\<lambda>(env, path, directory, r). pathRank directory)")
     (auto simp: dirname_rank)

declare ancestorWalk.simps [simp del]

definition invokeDirectoryWatchers :: "'fs env \<Rightarrow> path \<Rightarrow> 'fs run \<Rightarrow> 'fs run result" where
  "invokeDirectoryWatchers env path r =
     (let directory = dirname path
      in andThen (notifyDirectory env path directory r) (ancestorWalk env path directory))"

section \<open>The controlled system\<close>

fun setDeleted :: "path \<Rightarrow> bool \<Rightarrow> 'fs run \<Rightarrow> 'fs run" where
  "setDeleted path b (w, tr) = (w\<lparr>deletedFiles := (deletedFiles w)(path \<mapsto> b)\<rparr>, tr)"

fun onStore :: "('fs \<Rightarrow> 'fs) \<Rightarrow> 'fs run \<Rightarrow> 'fs run" where
  "onStore f (w, tr) = (w\<lparr>fileSystem := f (fileSystem w)\<rparr>, tr)"

text \<open>\<^verbatim>\<open>deletedFiles.get(path)\<close> is truthy exactly when the map holds \<^verbatim>\<open>true\<close> for the path.\<close>

definition markedDeleted :: "'fs world \<Rightarrow> path \<Rightarrow> bool" where
  "markedDeleted w path = (deletedFiles w path = Some True)"

definition invokeFileChanged :: "'fs env \<Rightarrow> path \<Rightarrow> 'fs run \<Rightarrow> 'fs run result" where
  "invokeFileChanged env path r =
     (let normalizedPath = normalizePath env path
      in andThen (invokeDirectoryWatchers env normalizedPath r) (\<lambda>r1.
           if markedDeleted (fst r1) normalizedPath
           then andThen (invokeFileWatchers env normalizedPath Created r1)
                  (\<lambda>r2. Returned (setDeleted normalizedPath False r2))
           else invokeFileWatchers env normalizedPath Changed r1))"

definition invokeFileDeleted :: "'fs env \<Rightarrow> path \<Rightarrow> 'fs run \<Rightarrow> 'fs run result" where
  "invokeFileDeleted env path r =
     (let normalizedPath = normalizePath env path
      in if \<not> markedDeleted (fst r) normalizedPath
         then andThen (invokeDirectoryWatchers env normalizedPath r) (\<lambda>r1.
                andThen (invokeFileWatchers env normalizedPath Deleted r1)
                  (\<lambda>r2. Returned (setDeleted normalizedPath True r2)))
         else Returned r)"

definition writeFile :: "'fs env \<Rightarrow> path \<Rightarrow> string \<Rightarrow> 'fs run \<Rightarrow> 'fs run result" where
  "writeFile env path data r = invokeFileChanged env path (onStore (storeWriteFile env path data) r)"

definition deleteFile :: "'fs env \<Rightarrow> path \<Rightarrow> 'fs run \<Rightarrow> 'fs run result" where
  "deleteFile env path r = invokeFileDeleted env path (onStore (storeDeleteFile env path) r)"

definition createDirectory :: "'fs env \<Rightarrow> path \<Rightarrow> 'fs run \<Rightarrow> 'fs run result" where
  "createDirectory env path r =
     invokeDirectoryWatchers env (normalizePath env path) (onStore (storeCreateDir env path) r)"

definition setModifiedTime :: "'fs env \<Rightarrow> path \<Rightarrow> nat \<Rightarrow> 'fs run \<Rightarrow> 'fs run result" where
  "setModifiedTime env path date r =
     andThen (invokeDirectoryWatchers env (normalizePath env path)
                (onStore (storeUpdateTimes env path date date) r))
       (invokeFileWatchers env (normalizePath env path) Changed)"

text \<open>
  The state in which \<^verbatim>\<open>createControlledTypeScriptSystem\<close> leaves its closure variables: the
  four maps and the set are new and empty. Nothing is queued yet.
\<close>

definition createControlledTypeScriptSystem :: "'fs \<Rightarrow> 'fs world" where
  "createControlledTypeScriptSystem store =
     \<lparr>fileWatchersMap = Map.empty, directoryWatchersMap = Map.empty,
      recursiveDirectoryWatchersMap = Map.empty, deletedFiles = Map.empty,
      timeoutCallbacks = {||}, fileSystem = store, immediateQueue = [], nextImmediate = 0\<rparr>"

section \<open>The deferred task queue\<close>

text \<open>
  \<^verbatim>\<open>setTimeout(callback, timeout, ...args)\<close> hands a closure to \<^verbatim>\<open>setImmediate\<close>, which creates
  a new \<^verbatim>\<open>Immediate\<close> object and appends it to Node's queue, and then adds that object to
  \<^verbatim>\<open>timeoutCallbacks\<close>. The nominal delay is not used.
\<close>

definition setTimeout :: "callback \<Rightarrow> nat \<Rightarrow> arg list \<Rightarrow> 'fs world \<Rightarrow> timeoutId \<times> 'fs world" where
  "setTimeout cb timeout args w =
     (let timeoutId = nextImmediate w
      in (timeoutId,
          w\<lparr>timeoutCallbacks := finsert timeoutId (timeoutCallbacks w),
            immediateQueue := immediateQueue w @ [(timeoutId, TimeoutTask cb args)],
            nextImmediate := Suc timeoutId\<rparr>))"

definition clearTimeout :: "timeoutId \<Rightarrow> 'fs world \<Rightarrow> 'fs world" where
  "clearTimeout timeoutId w =
     w\<lparr>immediateQueue := filter (\<lambda>(i, job). i \<noteq> timeoutId) (immediateQueue w),
       timeoutCallbacks := timeoutCallbacks w |-| {|timeoutId|}\<rparr>"

text \<open>
  What Node runs for an immediate taken from its queue. For a task of \<^verbatim>\<open>setTimeout\<close> this is
  the closure \<^verbatim>\<open>() => { callback(...args); timeoutCallbacks.delete(timeoutId); }\<close>: when the
  callback throws, the second statement is not reached. \<^verbatim>\<open>resolve\<close> settles the promise of
  \<^verbatim>\<open>waitForQueued\<close> and changes nothing else.
\<close>

fun forgetTimeout :: "timeoutId \<Rightarrow> 'fs run \<Rightarrow> 'fs run result" where
  "forgetTimeout timeoutId (w, tr) =
     Returned (w\<lparr>timeoutCallbacks := timeoutCallbacks w |-| {|timeoutId|}\<rparr>, tr)"

fun runImmediate :: "'fs env \<Rightarrow> timeoutId \<Rightarrow> immediate \<Rightarrow> 'fs run \<Rightarrow> 'fs run result" where
  "runImmediate env timeoutId (TimeoutTask cb args) r =
     andThen (callTimeout env cb args r) (forgetTimeout timeoutId)"
| "runImmediate env timeoutId Resolve r = Returned r"

text \<open>
  One turn of Node's loop: the first immediate leaves the queue and is run. There is no
  turn when the queue is empty.
\<close>

fun turn :: "'fs env \<Rightarrow> 'fs run \<Rightarrow> 'fs run result option" where
  "turn env (w, tr) =
     (case immediateQueue w of
        [] \<Rightarrow> None
      | (i, job) # rest \<Rightarrow> Some (runImmediate env i job (w\<lparr>immediateQueue := rest\<rparr>, tr)))"

fun resumes :: "timeoutId \<Rightarrow> 'fs world \<Rightarrow> bool" where
  "resumes k w =
     (case immediateQueue w of [] \<Rightarrow> False | (i, job) # rest \<Rightarrow> i = k \<and> job = Resolve)"

text \<open>
  The event loop while \<^verbatim>\<open>waitForQueued\<close> is suspended on the promise whose \<^verbatim>\<open>resolve\<close> is the
  immediate \<open>k\<close>: Node takes turn after turn, and the continuation of \<^verbatim>\<open>waitForQueued\<close>
  runs right after the turn of immediate \<open>k\<close>. An exception that escapes an immediate is
  uncaught: it ends the run. A task may schedule tasks for ever, so the loop is given
  fuel, and \<open>None\<close> says that \<^verbatim>\<open>waitForQueued\<close> has not been resumed (out of fuel, or the
  queue ran empty without reaching \<open>k\<close>).
\<close>

fun runUntil :: "nat \<Rightarrow> 'fs env \<Rightarrow> timeoutId \<Rightarrow> 'fs run \<Rightarrow> 'fs run result option" where
  "runUntil 0 env k r = None"
| "runUntil (Suc fuel) env k r =
     (case turn env r of
        None \<Rightarrow> None
      | Some (Threw r') \<Rightarrow> Some (Threw r')
      | Some (Returned r') \<Rightarrow>
          if resumes k (fst r) then Some (Returned r') else runUntil fuel env k r')"

text \<open>\<^verbatim>\<open>await new Promise((resolve) => setImmediate(resolve))\<close>\<close>

fun awaitImmediate :: "nat \<Rightarrow> 'fs env \<Rightarrow> 'fs run \<Rightarrow> 'fs run result option" where
  "awaitImmediate fuel env (w, tr) =
     (let k = nextImmediate w
      in runUntil fuel env k
           (w\<lparr>immediateQueue := immediateQueue w @ [(k, Resolve)], nextImmediate := Suc k\<rparr>, tr))"

fun waitForQueued :: "nat \<Rightarrow> 'fs env \<Rightarrow> 'fs run \<Rightarrow> 'fs run result option" where
  "waitForQueued 0 env r = None"
| "waitForQueued (Suc fuel) env r =
     (if fcard (timeoutCallbacks (fst r)) > 0
      then (case awaitImmediate fuel env r of
              None \<Rightarrow> None
            | Some (Threw r') \<Rightarrow> Some (Threw r')
            | Some (Returned r') \<Rightarrow> waitForQueued fuel env r')
      else Some (Returned r))"

section \<open>The host watcher adapter\<close>

text \<open>
  \<^verbatim>\<open>getWatcher\<close> reads properties of a value it knows nothing about (\<^verbatim>\<open>compiler as any\<close>), so
  the argument is an arbitrary JavaScript value. An event emitter is an object without
  the properties read here. Reading a property of \<^verbatim>\<open>undefined\<close> or \<^verbatim>\<open>null\<close> throws a
  \<^verbatim>\<open>TypeError\<close>; reading a property that an object or a primitive does not have gives
  \<^verbatim>\<open>undefined\<close>.
\<close>

datatype jsValue =
    JSUndefined
  | JSNull
  | JSBoolean bool
  | JSNumber int
  | JSString string
  | JSEmitter nat
  | JSObject "(string \<times> jsValue) list"

datatype jsError = TypeError

fun getProperty :: "jsValue \<Rightarrow> string \<Rightarrow> jsError + jsValue" where
  "getProperty JSUndefined name = Inl TypeError"
| "getProperty JSNull name = Inl TypeError"
| "getProperty (JSObject props) name =
     Inr (case map_of props name of Some v \<Rightarrow> v | None \<Rightarrow> JSUndefined)"
| "getProperty v name = Inr JSUndefined"

fun truthy :: "jsValue \<Rightarrow> bool" where
  "truthy JSUndefined = False"
| "truthy JSNull = False"
| "truthy (JSBoolean b) = b"
| "truthy (JSNumber n) = (n \<noteq> 0)"
| "truthy (JSString s) = (s \<noteq> [])"
| "truthy (JSEmitter e) = True"
| "truthy (JSObject props) = True"

definition getWatcher :: "jsValue \<Rightarrow> jsError + jsValue" where
  "getWatcher compiler =
     (case getProperty compiler ''watchFileSystem'' of
        Inl e \<Rightarrow> Inl e
      | Inr watchFileSystem \<Rightarrow>
          (case getProperty watchFileSystem ''watcher'' of
             Inl e \<Rightarrow> Inl e
           | Inr watcher \<Rightarrow>
               if truthy watcher then Inr watcher
               else (case getProperty watchFileSystem ''wfs'' of
                       Inl e \<Rightarrow> Inl e
                     | Inr wfs \<Rightarrow>
                         if truthy wfs
                         then (case getProperty watchFileSystem ''wfs'' of
                                 Inl e \<Rightarrow> Inl e
                               | Inr wfs' \<Rightarrow> getProperty wfs' ''watcher'')
                         else Inr wfs)))"

text \<open>The value a property read gives where it does not throw, \<^verbatim>\<open>undefined\<close> otherwise.\<close>

definition property :: "jsValue \<Rightarrow> string \<Rightarrow> jsValue" where
  "property v name = (case getProperty v name of Inr x \<Rightarrow> x | Inl e \<Rightarrow> JSUndefined)"

section \<open>Vocabulary of the properties\<close>

text \<open>
  The directories that the loop of \<open>invokeDirectoryWatchers\<close> visits when it is entered
  with \<open>directory\<close>: the directory and its ancestors, up to but without the first directory
  that is its own parent.
\<close>

function ancestors :: "path \<Rightarrow> path list" where
  "ancestors directory =
     (if directory \<noteq> dirname directory then directory # ancestors (dirname directory) else [])"
  by pat_completeness auto
termination
  by (relation "measure pathRank") (auto simp: dirname_rank)

declare ancestors.simps [simp del]

text \<open>
  The directory watchers that a notification for \<open>path\<close> reaches in the registries of \<open>w\<close>,
  in the order of the calls, and the calls themselves; likewise for the file watchers.
  This follows the walk of the code: the recursive watchers of a directory that is its own
  parent (the root) are not among them.
\<close>

definition directoryWatchers :: "'fs world \<Rightarrow> path \<Rightarrow> callback list" where
  "directoryWatchers w path =
     watchersAt (directoryWatchersMap w) (dirname path)
     @ concat (map (watchersAt (recursiveDirectoryWatchersMap w)) (ancestors (dirname path)))"

definition directoryCalls :: "'fs world \<Rightarrow> path \<Rightarrow> call list" where
  "directoryCalls w path = map (\<lambda>cb. DirectoryWatcherCall cb path) (directoryWatchers w path)"

definition fileCalls :: "'fs world \<Rightarrow> path \<Rightarrow> FileWatcherEventKind \<Rightarrow> call list" where
  "fileCalls w path event =
     map (\<lambda>cb. FileWatcherCall cb path event) (watchersAt (fileWatchersMap w) path)"

text \<open>
  Callbacks that only observe: each returns, and leaves the three registries and the
  map of deleted files as they were (everything else it may change).
\<close>

definition sameRegistries :: "'fs world \<Rightarrow> 'fs world \<Rightarrow> bool" where
  "sameRegistries w w' =
     (fileWatchersMap w' = fileWatchersMap w
      \<and> directoryWatchersMap w' = directoryWatchersMap w
      \<and> recursiveDirectoryWatchersMap w' = recursiveDirectoryWatchersMap w
      \<and> deletedFiles w' = deletedFiles w)"

definition observers :: "'fs env \<Rightarrow> bool" where
  "observers env =
     ((\<forall>cb path w. \<exists>w'. directoryWatcherCallback env cb path w = Returned w' \<and> sameRegistries w w')
      \<and> (\<forall>cb path event w. \<exists>w'. fileWatcherCallback env cb path event w = Returned w'
            \<and> sameRegistries w w'))"

fun isDirectoryCall :: "path \<Rightarrow> call \<Rightarrow> bool" where
  "isDirectoryCall path (DirectoryWatcherCall cb p) = (p = path)"
| "isDirectoryCall path c = False"

fun isFileCall :: "path \<Rightarrow> call \<Rightarrow> bool" where
  "isFileCall path (FileWatcherCall cb p event) = (p = path)"
| "isFileCall path c = False"


text \<open>
  The tasks of \<^verbatim>\<open>setTimeout\<close> that wait in the queue of immediates: the scheduled callbacks
  that have not fired.
\<close>

fun taskIds :: "(timeoutId \<times> immediate) list \<Rightarrow> timeoutId list" where
  "taskIds [] = []"
| "taskIds ((i, TimeoutTask cb args) # rest) = i # taskIds rest"
| "taskIds ((i, Resolve) # rest) = taskIds rest"

definition queuedTimeouts :: "'fs world \<Rightarrow> timeoutId list" where
  "queuedTimeouts w = taskIds (immediateQueue w)"

text \<open>
  The immediates of the queue are distinct objects, created before any that
  \<^verbatim>\<open>setImmediate\<close> will create.
\<close>

definition wellQueued :: "'fs world \<Rightarrow> bool" where
  "wellQueued w =
     (distinct (map fst (immediateQueue w))
      \<and> (\<forall>i\<in>set (map fst (immediateQueue w)). i < nextImmediate w))"

text \<open>
  Between two turns: the pending set holds exactly the tasks that wait in the queue.
  While immediate \<open>i\<close> runs, it has left the queue and the same holds up to \<open>i\<close>.
\<close>

definition settled :: "'fs world \<Rightarrow> bool" where
  "settled w = (wellQueued w \<and> fset (timeoutCallbacks w) = set (queuedTimeouts w))"

definition running :: "timeoutId \<Rightarrow> 'fs world \<Rightarrow> bool" where
  "running i w =
     (wellQueued w \<and> i < nextImmediate w \<and> i \<notin> set (map fst (immediateQueue w))
      \<and> fset (timeoutCallbacks w) - {i} = set (queuedTimeouts w))"

text \<open>
  \<^verbatim>\<open>timeoutCallbacks\<close> is a closure variable and the queue belongs to Node: a callback reaches
  them through \<^verbatim>\<open>setTimeout\<close>, \<^verbatim>\<open>clearTimeout\<close> and \<^verbatim>\<open>setImmediate\<close> only. Of this the proofs
  use that a callback that returns keeps \<open>running\<close>, as those operations do.
\<close>

definition timerDiscipline :: "'fs env \<Rightarrow> bool" where
  "timerDiscipline env =
     (\<forall>cb args i w w'. running i w \<longrightarrow> timeoutCallback env cb args w = Returned w'
        \<longrightarrow> running i w')"


text \<open>
  The worlds that the task queue can be seen in between two turns: the new system, and
  what scheduling, cancelling and a turn that returns make of such a world.
\<close>

inductive queueReachable :: "'fs env \<Rightarrow> 'fs world \<Rightarrow> bool" for env :: "'fs env" where
  created: "queueReachable env (createControlledTypeScriptSystem store)"
| scheduled: "queueReachable env w \<Longrightarrow> queueReachable env (snd (setTimeout cb ms args w))"
| cancelled: "queueReachable env w \<Longrightarrow> queueReachable env (clearTimeout t w)"
| fired: "queueReachable env w \<Longrightarrow> turn env (w, tr) = Some (Returned (w', tr'))
          \<Longrightarrow> queueReachable env w'"

section \<open>Concrete systems for the examples\<close>

text \<open>
  An environment in which paths are normal already, the store is trivial and every
  callback returns at once.
\<close>

definition idleEnv :: "unit env" where
  "idleEnv =
     \<lparr>normalizePath = (\<lambda>path. path),
      storeWriteFile = (\<lambda>path data store. store),
      storeDeleteFile = (\<lambda>path store. store),
      storeCreateDir = (\<lambda>path store. store),
      storeUpdateTimes = (\<lambda>path atime mtime store. store),
      fileWatcherCallback = (\<lambda>cb path event w. Returned w),
      directoryWatcherCallback = (\<lambda>cb path w. Returned w),
      timeoutCallback = (\<lambda>cb args w. Returned w)\<rparr>"

text \<open>
  Recursive watchers 1, 2, 3 on \<^verbatim>\<open>/\<close>, \<^verbatim>\<open>/a\<close>, \<^verbatim>\<open>/a/b\<close> and non-recursive watchers 4, 5, 6
  on \<^verbatim>\<open>/a/b\<close>, \<^verbatim>\<open>/a\<close>, \<^verbatim>\<open>/\<close>.
\<close>

definition ancestorsWorld :: "unit world" where
  "ancestorsWorld =
     (let w0 = createControlledTypeScriptSystem ();
          w1 = snd (watchDirectory idleEnv ''/'' 1 True w0);
          w2 = snd (watchDirectory idleEnv ''/a'' 2 True w1);
          w3 = snd (watchDirectory idleEnv ''/a/b'' 3 True w2);
          w4 = snd (watchDirectory idleEnv ''/a/b'' 4 False w3);
          w5 = snd (watchDirectory idleEnv ''/a'' 5 False w4);
          w6 = snd (watchDirectory idleEnv ''/'' 6 False w5)
      in w6)"

text \<open>The same system with a file watcher 7 on \<^verbatim>\<open>/a/b/c.txt\<close>.\<close>

definition ancestorsFileWorld :: "unit world" where
  "ancestorsFileWorld = snd (watchFile idleEnv ''/a/b/c.txt'' 7 ancestorsWorld)"

text \<open>
  The scenario of the specification: a recursive watcher 2 on \<^verbatim>\<open>/src\<close> and a file watcher 1
  on \<^verbatim>\<open>/src/a.ts\<close>; and the same system after \<^verbatim>\<open>deleteFile('/src/a.ts')\<close>.
\<close>

definition watchedWorld :: "unit world" where
  "watchedWorld =
     snd (watchFile idleEnv ''/src/a.ts'' 1
       (snd (watchDirectory idleEnv ''/src'' 2 True (createControlledTypeScriptSystem ()))))"

definition deletedWorld :: "unit world" where
  "deletedWorld = fst (stateOf (deleteFile idleEnv ''/src/a.ts'' (watchedWorld, [])))"


text \<open>
  File watchers 1 and 2 on \<^verbatim>\<open>/src/a.ts\<close>; and the callback 7 registered twice on it.
\<close>

definition pairWorld :: "unit world" where
  "pairWorld =
     snd (watchFile idleEnv ''/src/a.ts'' 2
       (snd (watchFile idleEnv ''/src/a.ts'' 1 (createControlledTypeScriptSystem ()))))"

definition twiceWatchedWorld :: "unit world" where
  "twiceWatchedWorld =
     snd (watchFile idleEnv ''/src/a.ts'' 7
       (snd (watchFile idleEnv ''/src/a.ts'' 7 (createControlledTypeScriptSystem ()))))"

text \<open>
  An environment in which the file watcher 1, when it is called, registers a file watcher 3
  on the path it is called for and closes the handle of the file watcher 2 on it.
\<close>

definition meddlingEnv :: "unit env" where
  "meddlingEnv =
     idleEnv\<lparr>fileWatcherCallback := (\<lambda>cb path event w.
        if cb = 1
        then Returned (close (Watcher FileWatchers path 2) (snd (watchFile idleEnv path 3 w)))
        else Returned w)\<rparr>"


text \<open>
  An environment whose store is a set of tasks: a timeout callback writes the pending set
  it finds into the store. One task is scheduled in the new system.
\<close>

definition probeEnv :: "timeoutId fset env" where
  "probeEnv =
     \<lparr>normalizePath = (\<lambda>path. path),
      storeWriteFile = (\<lambda>path data store. store),
      storeDeleteFile = (\<lambda>path store. store),
      storeCreateDir = (\<lambda>path store. store),
      storeUpdateTimes = (\<lambda>path atime mtime store. store),
      fileWatcherCallback = (\<lambda>cb path event w. Returned w),
      directoryWatcherCallback = (\<lambda>cb path w. Returned w),
      timeoutCallback = (\<lambda>cb args w. Returned (w\<lparr>fileSystem := timeoutCallbacks w\<rparr>))\<rparr>"

definition probeWorld :: "timeoutId fset world" where
  "probeWorld = snd (setTimeout 1 250 [] (createControlledTypeScriptSystem {||}))"

text \<open>
  The chain of the specification: task 1 schedules task 2, which schedules task 3. Task 1
  is scheduled in the new system.
\<close>

definition chainEnv :: "unit env" where
  "chainEnv =
     idleEnv\<lparr>timeoutCallback := (\<lambda>cb args w.
        if cb = 1 then Returned (snd (setTimeout 2 250 [] w))
        else if cb = 2 then Returned (snd (setTimeout 3 250 [] w))
        else Returned w)\<rparr>"

definition chainWorld :: "unit world" where
  "chainWorld = snd (setTimeout 1 250 [] (createControlledTypeScriptSystem ()))"


section \<open>Lemmas\<close>

subsection \<open>Iterating over a list of callbacks\<close>

lemma forEach_logged_returned:
  assumes "\<And>x w. x \<in> set xs \<Longrightarrow> Q w \<Longrightarrow> isReturned (g x w) \<and> Q (stateOf (g x w))"
    and "Q w"
  shows "\<exists>w'. forEach (\<lambda>x (w, tr). logged (c x) tr (g x w)) xs (w, tr)
           = Returned (w', tr @ map c xs) \<and> Q w'"
  using assms
proof (induction xs arbitrary: w tr)
  case Nil
  then show ?case by simp
next
  case (Cons x xs)
  from Cons.prems(1)[of x w] Cons.prems(2)
  obtain w1 where g: "g x w = Returned w1" and q1: "Q w1"
    by (cases "g x w") auto
  from Cons.IH[of w1 "tr @ [c x]"] Cons.prems(1) q1
  obtain w' where "forEach (\<lambda>x (w, tr). logged (c x) tr (g x w)) xs (w1, tr @ [c x])
      = Returned (w', (tr @ [c x]) @ map c xs)" and "Q w'"
    by auto
  with g show ?case by (simp add: logged_def)
qed

lemma forEach_logged_prefix:
  "\<exists>k\<le>length xs. snd (stateOf (forEach (\<lambda>x (w, tr). logged (c x) tr (g x w)) xs (w, tr)))
      = tr @ map c (take k xs)"
proof (induction xs arbitrary: w tr)
  case Nil
  then show ?case by simp
next
  case (Cons x xs)
  show ?case
  proof (cases "g x w")
    case (Returned w1)
    from Cons.IH[of w1 "tr @ [c x]"] obtain k where "k \<le> length xs"
      and "snd (stateOf (forEach (\<lambda>x (w, tr). logged (c x) tr (g x w)) xs (w1, tr @ [c x])))
        = (tr @ [c x]) @ map c (take k xs)" by blast
    with Returned show ?thesis
      by (intro exI[of _ "Suc k"]) (simp add: logged_def)
  next
    case (Threw w1)
    then show ?thesis
      by (intro exI[of _ "Suc 0"]) (simp add: logged_def)
  qed
qed

lemma callFileWatcher_logged:
  "callFileWatcher env path event
     = (\<lambda>x (w, tr). logged (FileWatcherCall x path event) tr (fileWatcherCallback env x path event w))"
  by (intro ext) auto

lemma callDirectoryWatcher_logged:
  "callDirectoryWatcher env path
     = (\<lambda>x (w, tr). logged (DirectoryWatcherCall x path) tr (directoryWatcherCallback env x path w))"
  by (intro ext) auto

lemma sameRegistries_refl [simp]: "sameRegistries w w"
  by (simp add: sameRegistries_def)

lemma sameRegistries_trans: "sameRegistries a b \<Longrightarrow> sameRegistries b c \<Longrightarrow> sameRegistries a c"
  by (simp add: sameRegistries_def)

lemma invokeFileWatchers_returned:
  assumes "\<And>cb w'. cb \<in> set (watchersAt (fileWatchersMap w) path)
             \<Longrightarrow> isReturned (fileWatcherCallback env cb path event w')"
  shows "\<exists>w'. invokeFileWatchers env path event (w, tr)
           = Returned (w', tr @ fileCalls w path event)"
proof (cases "fileWatchersMap w path")
  case None
  then show ?thesis by (simp add: fileCalls_def watchersAt_def)
next
  case (Some ws)
  from forEach_logged_returned[where Q = "\<lambda>_. True" and xs = ws
      and g = "\<lambda>x. fileWatcherCallback env x path event"
      and c = "\<lambda>x. FileWatcherCall x path event" and w = w and tr = tr]
    assms Some
  show ?thesis by (auto simp: fileCalls_def watchersAt_def callFileWatcher_logged)
qed

lemma invokeFileWatchers_observers:
  assumes "observers env"
  shows "\<exists>w'. invokeFileWatchers env path event (w, tr)
           = Returned (w', tr @ fileCalls w path event) \<and> sameRegistries w w'"
proof -
  have step: "\<And>x w1. sameRegistries w w1 \<Longrightarrow>
      isReturned (fileWatcherCallback env x path event w1)
      \<and> sameRegistries w (stateOf (fileWatcherCallback env x path event w1))"
  proof -
    fix x w1 assume s: "sameRegistries w w1"
    from assms obtain w2 where "fileWatcherCallback env x path event w1 = Returned w2"
      and "sameRegistries w1 w2" unfolding observers_def by blast
    with s show "isReturned (fileWatcherCallback env x path event w1)
      \<and> sameRegistries w (stateOf (fileWatcherCallback env x path event w1))"
      by (auto intro: sameRegistries_trans)
  qed
  show ?thesis
  proof (cases "fileWatchersMap w path")
    case None
    then show ?thesis by (simp add: fileCalls_def watchersAt_def)
  next
    case (Some ws)
    from forEach_logged_returned[where Q = "sameRegistries w" and xs = ws
        and g = "\<lambda>x. fileWatcherCallback env x path event"
        and c = "\<lambda>x. FileWatcherCall x path event" and w = w and tr = tr] step Some
    show ?thesis by (auto simp: fileCalls_def watchersAt_def callFileWatcher_logged)
  qed
qed

lemma directory_step:
  assumes "observers env" and "sameRegistries w w1"
  shows "isReturned (directoryWatcherCallback env x path w1)
      \<and> sameRegistries w (stateOf (directoryWatcherCallback env x path w1))"
proof -
  from assms(1) obtain w2 where "directoryWatcherCallback env x path w1 = Returned w2"
    and "sameRegistries w1 w2" unfolding observers_def by blast
  with assms(2) show ?thesis by (auto intro: sameRegistries_trans)
qed

lemma notifyDirectory_observers:
  assumes "observers env" and "sameRegistries w0 w"
  shows "\<exists>w'. notifyDirectory env path directory (w, tr)
           = Returned (w', tr @ map (\<lambda>cb. DirectoryWatcherCall cb path)
                                   (watchersAt (directoryWatchersMap w0) directory))
         \<and> sameRegistries w0 w'"
proof (cases "directoryWatchersMap w directory")
  case None
  with assms(2) show ?thesis by (simp add: watchersAt_def sameRegistries_def)
next
  case (Some ws)
  from forEach_logged_returned[where Q = "sameRegistries w0" and xs = ws
      and g = "\<lambda>x. directoryWatcherCallback env x path"
      and c = "\<lambda>x. DirectoryWatcherCall x path" and w = w and tr = tr]
    directory_step[OF assms(1)] assms(2) Some
  show ?thesis by (auto simp: watchersAt_def callDirectoryWatcher_logged sameRegistries_def)
qed

lemma notifyRecursive_observers:
  assumes "observers env" and "sameRegistries w0 w"
  shows "\<exists>w'. notifyRecursive env path directory (w, tr)
           = Returned (w', tr @ map (\<lambda>cb. DirectoryWatcherCall cb path)
                                   (watchersAt (recursiveDirectoryWatchersMap w0) directory))
         \<and> sameRegistries w0 w'"
proof (cases "recursiveDirectoryWatchersMap w directory")
  case None
  with assms(2) show ?thesis by (simp add: watchersAt_def sameRegistries_def)
next
  case (Some ws)
  from forEach_logged_returned[where Q = "sameRegistries w0" and xs = ws
      and g = "\<lambda>x. directoryWatcherCallback env x path"
      and c = "\<lambda>x. DirectoryWatcherCall x path" and w = w and tr = tr]
    directory_step[OF assms(1)] assms(2) Some
  show ?thesis by (auto simp: watchersAt_def callDirectoryWatcher_logged sameRegistries_def)
qed

lemma ancestorWalk_observers:
  "observers env \<Longrightarrow> sameRegistries w0 (fst r) \<Longrightarrow>
         \<exists>w'. ancestorWalk env path directory r
           = Returned (w', snd r @ map (\<lambda>cb. DirectoryWatcherCall cb path)
               (concat (map (watchersAt (recursiveDirectoryWatchersMap w0)) (ancestors directory))))
         \<and> sameRegistries w0 w'"
proof (induction env path directory r rule: ancestorWalk.induct)
  case (1 env path directory r)
  show ?case
  proof (cases "directory \<noteq> dirname directory")
    case False
    with 1 show ?thesis
      by (subst ancestorWalk.simps, subst ancestors.simps) (cases r, simp)
  next
    case True
    obtain w tr where r: "r = (w, tr)" by (cases r)
    with "1.prems" have s: "sameRegistries w0 w" by simp
    from notifyRecursive_observers[OF "1.prems"(1) s, of path directory tr]
    obtain w1 where n: "notifyRecursive env path directory r
        = Returned (w1, tr @ map (\<lambda>cb. DirectoryWatcherCall cb path)
                                 (watchersAt (recursiveDirectoryWatchersMap w0) directory))"
      and s1: "sameRegistries w0 w1" unfolding r by blast
    from "1.IH"[OF True n "1.prems"(1)] s1
    obtain w' where "ancestorWalk env path (dirname directory)
          (w1, tr @ map (\<lambda>cb. DirectoryWatcherCall cb path)
                                 (watchersAt (recursiveDirectoryWatchersMap w0) directory))
        = Returned (w', (tr @ map (\<lambda>cb. DirectoryWatcherCall cb path)
                                 (watchersAt (recursiveDirectoryWatchersMap w0) directory))
             @ map (\<lambda>cb. DirectoryWatcherCall cb path)
               (concat (map (watchersAt (recursiveDirectoryWatchersMap w0))
                  (ancestors (dirname directory)))))" and "sameRegistries w0 w'"
      by auto
    with True n r show ?thesis
      by (subst ancestorWalk.simps, subst ancestors.simps) simp
  qed
qed

lemma invokeDirectoryWatchers_observers:
  assumes "observers env"
  shows "\<exists>w'. invokeDirectoryWatchers env path (w, tr)
           = Returned (w', tr @ directoryCalls w path) \<and> sameRegistries w w'"
proof -
  from notifyDirectory_observers[where ?w0.0 = w and w = w and path = path
      and directory = "dirname path" and tr = tr, OF assms sameRegistries_refl]
  obtain w1 where n: "notifyDirectory env path (dirname path) (w, tr)
      = Returned (w1, tr @ map (\<lambda>cb. DirectoryWatcherCall cb path)
                                   (watchersAt (directoryWatchersMap w) (dirname path)))"
    and s1: "sameRegistries w w1" by blast
  from ancestorWalk_observers[where env = env and ?w0.0 = w and path = path
      and directory = "dirname path"
      and r = "(w1, tr @ map (\<lambda>cb. DirectoryWatcherCall cb path)
                                   (watchersAt (directoryWatchersMap w) (dirname path)))"]
    assms s1
  obtain w' where "ancestorWalk env path (dirname path)
      (w1, tr @ map (\<lambda>cb. DirectoryWatcherCall cb path)
                                   (watchersAt (directoryWatchersMap w) (dirname path)))
    = Returned (w', tr @ directoryCalls w path)" and "sameRegistries w w'"
    by (auto simp: directoryCalls_def directoryWatchers_def)
  with n show ?thesis
    by (simp add: invokeDirectoryWatchers_def andThen_def del: notifyDirectory.simps)
qed

lemma observers_idleEnv: "observers idleEnv"
  by (simp add: observers_def idleEnv_def)

lemma directoryCalls_store [simp]:
  "directoryCalls (w\<lparr>fileSystem := s\<rparr>) path = directoryCalls w path"
  by (simp add: directoryCalls_def directoryWatchers_def)

lemma fileCalls_store [simp]:
  "fileCalls (w\<lparr>fileSystem := s\<rparr>) path event = fileCalls w path event"
  by (simp add: fileCalls_def)

lemma markedDeleted_store [simp]:
  "markedDeleted (w\<lparr>fileSystem := s\<rparr>) path = markedDeleted w path"
  by (simp add: markedDeleted_def)

lemma sameRegistries_store [simp]:
  "sameRegistries (w\<lparr>fileSystem := s\<rparr>) w' = sameRegistries w w'"
  by (simp add: sameRegistries_def)

lemma sameRegistries_marked: "sameRegistries w w' \<Longrightarrow> markedDeleted w' path = markedDeleted w path"
  by (simp add: sameRegistries_def markedDeleted_def)

lemma sameRegistries_fileCalls: "sameRegistries w w' \<Longrightarrow> fileCalls w' path event = fileCalls w path event"
  by (simp add: sameRegistries_def fileCalls_def)

lemma sameRegistries_deletedFiles: "sameRegistries w w' \<Longrightarrow> deletedFiles w' = deletedFiles w"
  by (simp add: sameRegistries_def)

text \<open>What a change notification does when the callbacks are observers.\<close>

lemma invokeFileChanged_observers:
  assumes "observers env"
  shows "\<exists>w'. invokeFileChanged env path (w, tr)
      = Returned (w', tr @ directoryCalls w (normalizePath env path)
           @ fileCalls w (normalizePath env path)
               (if markedDeleted w (normalizePath env path) then Created else Changed))
    \<and> deletedFiles w' = (if markedDeleted w (normalizePath env path)
         then (deletedFiles w)(normalizePath env path \<mapsto> False) else deletedFiles w)
    \<and> fileWatchersMap w' = fileWatchersMap w
    \<and> directoryWatchersMap w' = directoryWatchersMap w
    \<and> recursiveDirectoryWatchersMap w' = recursiveDirectoryWatchersMap w"
proof -
  let ?np = "normalizePath env path"
  from invokeDirectoryWatchers_observers[OF assms, of ?np w tr]
  obtain w1 where d: "invokeDirectoryWatchers env ?np (w, tr)
      = Returned (w1, tr @ directoryCalls w ?np)" and s1: "sameRegistries w w1" by blast
  show ?thesis
  proof (cases "markedDeleted w ?np")
    case True
    from invokeFileWatchers_observers[OF assms, of ?np Created w1 "tr @ directoryCalls w ?np"]
    obtain w2 where f: "invokeFileWatchers env ?np Created (w1, tr @ directoryCalls w ?np)
        = Returned (w2, (tr @ directoryCalls w ?np) @ fileCalls w1 ?np Created)"
      and s2: "sameRegistries w1 w2" by blast
    from s1 s2 have s: "sameRegistries w w2" by (rule sameRegistries_trans)
    from True d f s1 s show ?thesis
      by (simp add: invokeFileChanged_def andThen_def sameRegistries_marked Let_def
          sameRegistries_fileCalls sameRegistries_deletedFiles del: invokeFileWatchers.simps)
        (simp add: sameRegistries_def del: invokeFileWatchers.simps)
  next
    case False
    from invokeFileWatchers_observers[OF assms, of ?np Changed w1 "tr @ directoryCalls w ?np"]
    obtain w2 where f: "invokeFileWatchers env ?np Changed (w1, tr @ directoryCalls w ?np)
        = Returned (w2, (tr @ directoryCalls w ?np) @ fileCalls w1 ?np Changed)"
      and s2: "sameRegistries w1 w2" by blast
    from s1 s2 have s: "sameRegistries w w2" by (rule sameRegistries_trans)
    from False d f s1 s show ?thesis
      by (simp add: invokeFileChanged_def andThen_def sameRegistries_marked Let_def
          sameRegistries_fileCalls sameRegistries_deletedFiles del: invokeFileWatchers.simps)
        (simp add: sameRegistries_def del: invokeFileWatchers.simps)
  qed
qed

lemma invokeFileDeleted_marked:
  "markedDeleted w (normalizePath env path) \<Longrightarrow> invokeFileDeleted env path (w, tr) = Returned (w, tr)"
  by (simp add: invokeFileDeleted_def)

lemma invokeFileDeleted_marks:
  assumes "invokeFileDeleted env path (w, tr) = Returned (w1, tr1)"
  shows "markedDeleted w1 (normalizePath env path)"
proof (cases "markedDeleted w (normalizePath env path)")
  case True
  with assms show ?thesis by (simp add: invokeFileDeleted_def)
next
  case False
  with assms show ?thesis
    by (auto simp: invokeFileDeleted_def andThen_def markedDeleted_def Let_def
        split: result.splits prod.splits simp del: invokeFileWatchers.simps)
qed

lemma invokeFileDeleted_observers:
  assumes "observers env" and "\<not> markedDeleted w (normalizePath env path)"
  shows "\<exists>w'. invokeFileDeleted env path (w, tr)
      = Returned (w', tr @ directoryCalls w (normalizePath env path)
           @ fileCalls w (normalizePath env path) Deleted)
    \<and> markedDeleted w' (normalizePath env path)"
proof -
  let ?np = "normalizePath env path"
  from invokeDirectoryWatchers_observers[OF assms(1), of ?np w tr]
  obtain w1 where d: "invokeDirectoryWatchers env ?np (w, tr)
      = Returned (w1, tr @ directoryCalls w ?np)" and s1: "sameRegistries w w1" by blast
  from invokeFileWatchers_observers[OF assms(1), of ?np Deleted w1 "tr @ directoryCalls w ?np"]
  obtain w2 where f: "invokeFileWatchers env ?np Deleted (w1, tr @ directoryCalls w ?np)
      = Returned (w2, (tr @ directoryCalls w ?np) @ fileCalls w1 ?np Deleted)"
    and s2: "sameRegistries w1 w2" by blast
  from assms(2) d f s1 show ?thesis
    by (simp add: invokeFileDeleted_def andThen_def sameRegistries_fileCalls markedDeleted_def
        Let_def del: invokeFileWatchers.simps)
qed

lemma setModifiedTime_observers:
  assumes "observers env"
  shows "\<exists>w'. setModifiedTime env path date (w, tr)
      = Returned (w', tr @ directoryCalls w (normalizePath env path)
           @ fileCalls w (normalizePath env path) Changed)
    \<and> deletedFiles w' = deletedFiles w"
proof -
  let ?np = "normalizePath env path"
  let ?w0 = "w\<lparr>fileSystem := storeUpdateTimes env path date date (fileSystem w)\<rparr>"
  from invokeDirectoryWatchers_observers[OF assms, of ?np ?w0 tr]
  obtain w1 where d: "invokeDirectoryWatchers env ?np (?w0, tr)
      = Returned (w1, tr @ directoryCalls w ?np)" and s1: "sameRegistries w w1" by auto
  from invokeFileWatchers_observers[OF assms, of ?np Changed w1 "tr @ directoryCalls w ?np"]
  obtain w2 where f: "invokeFileWatchers env ?np Changed (w1, tr @ directoryCalls w ?np)
      = Returned (w2, (tr @ directoryCalls w ?np) @ fileCalls w1 ?np Changed)"
    and s2: "sameRegistries w1 w2" by blast
  from s1 s2 have s: "sameRegistries w w2" by (rule sameRegistries_trans)
  from d f s1 s show ?thesis
    by (simp add: setModifiedTime_def andThen_def sameRegistries_fileCalls
        sameRegistries_deletedFiles del: invokeFileWatchers.simps)
qed

subsection \<open>The ancestor walk\<close>

text \<open>
  The walk never visits a directory that is its own parent: the recursive watchers of
  such a directory (of \<^verbatim>\<open>/\<close>, and of \<^verbatim>\<open>.\<close> for a relative path) are not reached, whatever
  the path.
\<close>

lemma ancestors_not_own_parent: "d \<in> set (ancestors directory) \<Longrightarrow> d \<noteq> dirname d"
proof (induction directory rule: ancestors.induct)
  case (1 directory)
  then show ?case
    by (subst (asm) ancestors.simps) (auto split: if_splits)
qed

subsection \<open>The shape of a trace\<close>

lemma notifyDirectory_shape:
  "\<exists>ds. snd (stateOf (notifyDirectory env path directory (w, tr))) = tr @ ds
        \<and> list_all (isDirectoryCall path) ds"
proof (cases "directoryWatchersMap w directory")
  case None
  then show ?thesis by simp
next
  case (Some ws)
  from forEach_logged_prefix[of ws "\<lambda>x. DirectoryWatcherCall x path"
      "\<lambda>x. directoryWatcherCallback env x path" w tr]
  obtain k where "snd (stateOf (forEach (callDirectoryWatcher env path) ws (w, tr)))
      = tr @ map (\<lambda>x. DirectoryWatcherCall x path) (take k ws)"
    by (auto simp: callDirectoryWatcher_logged)
  with Some show ?thesis by (simp add: list_all_iff)
qed

lemma notifyRecursive_shape:
  "\<exists>ds. snd (stateOf (notifyRecursive env path directory (w, tr))) = tr @ ds
        \<and> list_all (isDirectoryCall path) ds"
proof (cases "recursiveDirectoryWatchersMap w directory")
  case None
  then show ?thesis by simp
next
  case (Some ws)
  from forEach_logged_prefix[of ws "\<lambda>x. DirectoryWatcherCall x path"
      "\<lambda>x. directoryWatcherCallback env x path" w tr]
  obtain k where "snd (stateOf (forEach (callDirectoryWatcher env path) ws (w, tr)))
      = tr @ map (\<lambda>x. DirectoryWatcherCall x path) (take k ws)"
    by (auto simp: callDirectoryWatcher_logged)
  with Some show ?thesis by (simp add: list_all_iff)
qed

lemma ancestorWalk_shape:
  "\<exists>ds. snd (stateOf (ancestorWalk env path directory r)) = snd r @ ds
        \<and> list_all (isDirectoryCall path) ds"
proof (induction env path directory r rule: ancestorWalk.induct)
  case (1 env path directory r)
  show ?case
  proof (cases "directory \<noteq> dirname directory")
    case False
    then show ?thesis by (subst ancestorWalk.simps) simp
  next
    case True
    obtain w tr where r: "r = (w, tr)" by (cases r)
    from notifyRecursive_shape[of env path directory w tr]
    obtain ds where n: "snd (stateOf (notifyRecursive env path directory r)) = tr @ ds"
      and ds: "list_all (isDirectoryCall path) ds" unfolding r by blast
    show ?thesis
    proof (cases "notifyRecursive env path directory r")
      case (Threw r1)
      with True n ds r show ?thesis by (subst ancestorWalk.simps) auto
    next
      case (Returned r1)
      from "1.IH"[OF True Returned]
      obtain ds' where "snd (stateOf (ancestorWalk env path (dirname directory) r1)) = snd r1 @ ds'"
        and "list_all (isDirectoryCall path) ds'" by blast
      with True Returned n ds r show ?thesis
        by (subst ancestorWalk.simps) (auto intro!: exI[of _ "ds @ ds'"])
    qed
  qed
qed

lemma invokeDirectoryWatchers_shape:
  "\<exists>ds. snd (stateOf (invokeDirectoryWatchers env path (w, tr))) = tr @ ds
        \<and> list_all (isDirectoryCall path) ds"
proof -
  from notifyDirectory_shape[of env path "dirname path" w tr]
  obtain ds where n: "snd (stateOf (notifyDirectory env path (dirname path) (w, tr))) = tr @ ds"
    and ds: "list_all (isDirectoryCall path) ds" by blast
  show ?thesis
  proof (cases "notifyDirectory env path (dirname path) (w, tr)")
    case (Threw r1)
    with n ds show ?thesis
      by (auto simp: invokeDirectoryWatchers_def andThen_def simp del: notifyDirectory.simps)
  next
    case (Returned r1)
    from ancestorWalk_shape[of env path "dirname path" r1]
    obtain ds' where "snd (stateOf (ancestorWalk env path (dirname path) r1)) = snd r1 @ ds'"
      and "list_all (isDirectoryCall path) ds'" by blast
    with Returned n ds show ?thesis
      by (auto simp: invokeDirectoryWatchers_def andThen_def simp del: notifyDirectory.simps
          intro!: exI[of _ "ds @ ds'"])
  qed
qed

lemma invokeFileWatchers_shape:
  "\<exists>fs. snd (stateOf (invokeFileWatchers env path event (w, tr))) = tr @ fs
        \<and> list_all (isFileCall path) fs"
proof (cases "fileWatchersMap w path")
  case None
  then show ?thesis by simp
next
  case (Some ws)
  from forEach_logged_prefix[of ws "\<lambda>x. FileWatcherCall x path event"
      "\<lambda>x. fileWatcherCallback env x path event" w tr]
  obtain k where "snd (stateOf (forEach (callFileWatcher env path event) ws (w, tr)))
      = tr @ map (\<lambda>x. FileWatcherCall x path event) (take k ws)"
    by (auto simp: callFileWatcher_logged)
  with Some show ?thesis by (simp add: list_all_iff)
qed

lemma continuation_changed_shape:
  "\<exists>fs. snd (stateOf (if markedDeleted (fst r1) path
            then andThen (invokeFileWatchers env path Created r1)
                   (\<lambda>r2. Returned (setDeleted path False r2))
            else invokeFileWatchers env path Changed r1)) = snd r1 @ fs
        \<and> list_all (isFileCall path) fs"
proof -
  obtain w1 tr1 where r1: "r1 = (w1, tr1)" by (cases r1)
  from invokeFileWatchers_shape[of env path Created w1 tr1]
  obtain fs where c: "snd (stateOf (invokeFileWatchers env path Created (w1, tr1))) = tr1 @ fs"
    "list_all (isFileCall path) fs" by blast
  from invokeFileWatchers_shape[of env path Changed w1 tr1]
  obtain fs' where c': "snd (stateOf (invokeFileWatchers env path Changed (w1, tr1))) = tr1 @ fs'"
    "list_all (isFileCall path) fs'" by blast
  show ?thesis
  proof (cases "markedDeleted w1 path")
    case True
    with c r1 show ?thesis
      by (cases "invokeFileWatchers env path Created (w1, tr1)")
         (auto simp: andThen_def split: prod.splits simp del: invokeFileWatchers.simps)
  next
    case False
    with c' r1 show ?thesis by (auto simp del: invokeFileWatchers.simps)
  qed
qed

lemma continuation_deleted_shape:
  "\<exists>fs. snd (stateOf (andThen (invokeFileWatchers env path Deleted r1)
                   (\<lambda>r2. Returned (setDeleted path True r2)))) = snd r1 @ fs
        \<and> list_all (isFileCall path) fs"
proof -
  obtain w1 tr1 where r1: "r1 = (w1, tr1)" by (cases r1)
  from invokeFileWatchers_shape[of env path Deleted w1 tr1]
  obtain fs where c: "snd (stateOf (invokeFileWatchers env path Deleted (w1, tr1))) = tr1 @ fs"
    "list_all (isFileCall path) fs" by blast
  with r1 show ?thesis
      by (cases "invokeFileWatchers env path Deleted (w1, tr1)")
         (auto simp: andThen_def split: prod.splits simp del: invokeFileWatchers.simps)
qed

lemma directory_then_file:
  assumes "\<And>r1. \<exists>fs. snd (stateOf (k r1)) = snd r1 @ fs \<and> list_all (isFileCall path) fs"
  shows "\<exists>ds fs. snd (stateOf (andThen (invokeDirectoryWatchers env path (w, tr)) k)) = tr @ ds @ fs
     \<and> list_all (isDirectoryCall path) ds \<and> list_all (isFileCall path) fs
     \<and> (fs \<noteq> [] \<longrightarrow> (\<exists>w1. invokeDirectoryWatchers env path (w, tr) = Returned (w1, tr @ ds)))"
proof -
  from invokeDirectoryWatchers_shape[of env path w tr]
  obtain ds where n: "snd (stateOf (invokeDirectoryWatchers env path (w, tr))) = tr @ ds"
    and ds: "list_all (isDirectoryCall path) ds" by blast
  show ?thesis
  proof (cases "invokeDirectoryWatchers env path (w, tr)")
    case (Threw r1)
    with n ds show ?thesis
      by (intro exI[of _ ds] exI[of _ "[]"]) (simp add: andThen_def)
  next
    case (Returned r1)
    from assms[of r1] obtain fs where f: "snd (stateOf (k r1)) = snd r1 @ fs"
      and fs: "list_all (isFileCall path) fs" by blast
    from Returned n have "snd r1 = tr @ ds" by simp
    with Returned f fs ds show ?thesis
      by (intro exI[of _ ds] exI[of _ fs]) (cases r1, simp add: andThen_def)
  qed
qed


subsection \<open>Evaluating the examples\<close>

lemma ancestorWalk_step:
  "directory \<noteq> dirname directory \<Longrightarrow>
   ancestorWalk env path directory r =
     (case notifyRecursive env path directory r of
        Returned r' \<Rightarrow> ancestorWalk env path (dirname directory) r'
      | Threw r' \<Rightarrow> Threw r')"
  by (subst ancestorWalk.simps) simp

lemma ancestorWalk_stop:
  "directory = dirname directory \<Longrightarrow> ancestorWalk env path directory r = Returned r"
  by (subst ancestorWalk.simps) simp

lemma ancestors_step:
  "directory \<noteq> dirname directory \<Longrightarrow> ancestors directory = directory # ancestors (dirname directory)"
  by (subst ancestors.simps) simp

lemma ancestors_stop: "directory = dirname directory \<Longrightarrow> ancestors directory = []"
  by (subst ancestors.simps) simp

lemma dirname_examples:
  "dirname ''/a/b/c.txt'' = ''/a/b''"
  "dirname ''/a/b'' = ''/a''"
  "dirname ''/a'' = ''/''"
  "dirname ''/'' = ''/''"
  "dirname ''/c.txt'' = ''/''"
  "dirname ''/src/a.ts'' = ''/src''"
  "dirname ''/src'' = ''/''"
  by (simp_all add: dirname_def eval_nat_numeral)

lemmas example_simps =
  createControlledTypeScriptSystem_def idleEnv_def watchFile_def watchDirectory_def
  createWatcher_def closeWatcher_def watchersAt_def writeFile_def deleteFile_def
  setModifiedTime_def invokeFileChanged_def invokeFileDeleted_def invokeDirectoryWatchers_def
  andThen_def logged_def markedDeleted_def dirname_examples ancestorWalk_step ancestorWalk_stop
  ancestors_step ancestors_stop directoryCalls_def directoryWatchers_def fileCalls_def Let_def

lemma deletedWorld_marked: "markedDeleted deletedWorld ''/src/a.ts''"
  by (simp add: deletedWorld_def watchedWorld_def example_simps)

lemma watchedWorld_unmarked: "\<not> markedDeleted watchedWorld ''/src/a.ts''"
  by (simp add: watchedWorld_def example_simps)

lemma normalizePath_idleEnv [simp]: "normalizePath idleEnv path = path"
  by (simp add: idleEnv_def)

lemma watchedWorld_calls:
  "directoryCalls watchedWorld ''/src/a.ts'' = [DirectoryWatcherCall 2 ''/src/a.ts'']"
  "fileCalls watchedWorld ''/src/a.ts'' event = [FileWatcherCall 1 ''/src/a.ts'' event]"
  by (simp_all add: watchedWorld_def example_simps)

lemma deletedWorld_calls:
  "directoryCalls deletedWorld ''/src/a.ts'' = [DirectoryWatcherCall 2 ''/src/a.ts'']"
  "fileCalls deletedWorld ''/src/a.ts'' event = [FileWatcherCall 1 ''/src/a.ts'' event]"
  by (simp_all add: deletedWorld_def watchedWorld_def example_simps)


subsection \<open>Closing a handle\<close>

lemma watchersAt_closeWatcher:
  "watchersAt (closeWatcher watchersMap path cb) path
     = filter (\<lambda>watcher. watcher \<noteq> cb) (watchersAt watchersMap path)"
  by (simp add: closeWatcher_def watchersAt_def Let_def)

lemma closeWatcher_other: "q \<noteq> path \<Longrightarrow> closeWatcher watchersMap path cb q = watchersMap q"
  by (simp add: closeWatcher_def Let_def)


subsection \<open>The pending set and the queue\<close>

lemma taskIds_subset: "set (taskIds q) \<subseteq> set (map fst q)"
  by (induction q rule: taskIds.induct) auto

lemma taskIds_distinct: "distinct (map fst q) \<Longrightarrow> distinct (taskIds q)"
  using taskIds_subset by (induction q rule: taskIds.induct) auto

lemma taskIds_append: "taskIds (q @ q') = taskIds q @ taskIds q'"
  by (induction q rule: taskIds.induct) auto

lemma taskIds_clear:
  "taskIds (filter (\<lambda>(i, job). i \<noteq> t) q) = filter (\<lambda>i. i \<noteq> t) (taskIds q)"
  by (induction q rule: taskIds.induct) auto

lemma settled_card:
  assumes "settled w"
  shows "fcard (timeoutCallbacks w) = length (queuedTimeouts w)"
proof -
  from assms have "distinct (queuedTimeouts w)"
    by (simp add: settled_def wellQueued_def queuedTimeouts_def taskIds_distinct)
  moreover from assms have "fset (timeoutCallbacks w) = set (queuedTimeouts w)"
    by (simp add: settled_def)
  ultimately show ?thesis
    by (simp add: fcard.rep_eq distinct_card)
qed

lemma fresh_id:
  assumes "wellQueued w"
  shows "nextImmediate w \<notin> set (map fst (immediateQueue w))"
    and "nextImmediate w \<notin> set (queuedTimeouts w)"
proof -
  from assms show a: "nextImmediate w \<notin> set (map fst (immediateQueue w))"
    by (auto simp: wellQueued_def)
  with taskIds_subset[of "immediateQueue w"] show "nextImmediate w \<notin> set (queuedTimeouts w)"
    unfolding queuedTimeouts_def by blast
qed

lemma wellQueued_enqueue:
  assumes "wellQueued w"
  shows "wellQueued (w\<lparr>immediateQueue := immediateQueue w @ [(nextImmediate w, job)],
                      nextImmediate := Suc (nextImmediate w)\<rparr>)"
  using assms fresh_id(1)[OF assms] by (auto simp: wellQueued_def less_Suc_eq)

lemma settled_setTimeout:
  assumes "settled w"
  shows "settled (snd (setTimeout cb ms args w))"
    and "fst (setTimeout cb ms args w) |\<in>| timeoutCallbacks (snd (setTimeout cb ms args w))"
    and "fst (setTimeout cb ms args w) |\<notin>| timeoutCallbacks w"
proof -
  from assms have q: "wellQueued w" and p: "fset (timeoutCallbacks w) = set (queuedTimeouts w)"
    by (auto simp: settled_def)
  from fresh_id(2)[OF q] p show "fst (setTimeout cb ms args w) |\<notin>| timeoutCallbacks w"
    by (simp add: setTimeout_def Let_def)
  show "fst (setTimeout cb ms args w) |\<in>| timeoutCallbacks (snd (setTimeout cb ms args w))"
    by (simp add: setTimeout_def Let_def)
  have "wellQueued (snd (setTimeout cb ms args w))"
    using wellQueued_enqueue[OF q, of "TimeoutTask cb args"]
    by (simp add: setTimeout_def Let_def wellQueued_def)
  with p show "settled (snd (setTimeout cb ms args w))"
    by (simp add: settled_def) (simp add: setTimeout_def Let_def queuedTimeouts_def taskIds_append)
qed

lemma running_setTimeout:
  assumes "running i w"
  shows "running i (snd (setTimeout cb ms args w))"
proof -
  from assms have q: "wellQueued w"
    and p: "fset (timeoutCallbacks w) - {i} = set (queuedTimeouts w)"
    and i: "i < nextImmediate w" "i \<notin> set (map fst (immediateQueue w))"
    by (auto simp: running_def)
  have wq: "wellQueued (snd (setTimeout cb ms args w))"
    using wellQueued_enqueue[OF q, of "TimeoutTask cb args"]
    by (simp add: setTimeout_def Let_def wellQueued_def)
  from i have ne: "nextImmediate w \<noteq> i" by auto
  from p ne have "fset (timeoutCallbacks (snd (setTimeout cb ms args w))) - {i}
      = set (queuedTimeouts (snd (setTimeout cb ms args w)))"
    by (auto simp: setTimeout_def Let_def queuedTimeouts_def taskIds_append)
  with wq i ne show ?thesis
    by (simp add: running_def) (simp add: setTimeout_def Let_def)
qed

lemma wellQueued_clearTimeout: "wellQueued w \<Longrightarrow> wellQueued (clearTimeout t w)"
  by (auto simp: wellQueued_def clearTimeout_def distinct_map_filter)

lemma settled_clearTimeout:
  assumes "settled w"
  shows "settled (clearTimeout t w)"
proof -
  from assms have "wellQueued (clearTimeout t w)"
    by (simp add: settled_def wellQueued_clearTimeout)
  moreover from assms have "fset (timeoutCallbacks (clearTimeout t w))
      = set (queuedTimeouts (clearTimeout t w))"
    by (auto simp: settled_def clearTimeout_def queuedTimeouts_def taskIds_clear)
  ultimately show ?thesis by (simp add: settled_def)
qed

lemma running_clearTimeout:
  assumes "running i w"
  shows "running i (clearTimeout t w)"
proof -
  from assms have "wellQueued (clearTimeout t w)"
    by (simp add: running_def wellQueued_clearTimeout)
  moreover from assms have "i < nextImmediate (clearTimeout t w)"
    "i \<notin> set (map fst (immediateQueue (clearTimeout t w)))"
    by (auto simp: running_def clearTimeout_def)
  moreover from assms have "fset (timeoutCallbacks w) - {i} = set (queuedTimeouts w)"
    by (simp add: running_def)
  then have "fset (timeoutCallbacks (clearTimeout t w)) - {i}
      = set (queuedTimeouts (clearTimeout t w))"
    by (auto simp: clearTimeout_def queuedTimeouts_def taskIds_clear)
  ultimately show ?thesis by (simp add: running_def)
qed

lemma clearTimeout_removes:
  "t |\<notin>| timeoutCallbacks (clearTimeout t w)"
  "t \<notin> set (queuedTimeouts (clearTimeout t w))"
  "queuedTimeouts (clearTimeout t w) = filter (\<lambda>i. i \<noteq> t) (queuedTimeouts w)"
  "timeoutCallbacks (clearTimeout t w) = timeoutCallbacks w |-| {|t|}"
  by (simp_all add: clearTimeout_def queuedTimeouts_def taskIds_clear)

text \<open>Taking the head of the queue.\<close>

lemma settled_pop:
  assumes "settled w" and "immediateQueue w = (i, job) # rest"
  shows "running i (w\<lparr>immediateQueue := rest\<rparr>)"
    and "job \<noteq> Resolve \<Longrightarrow> i |\<in>| timeoutCallbacks (w\<lparr>immediateQueue := rest\<rparr>)"
    and "job = Resolve \<Longrightarrow> settled (w\<lparr>immediateQueue := rest\<rparr>)"
proof -
  from assms have d: "i \<notin> set (map fst rest)" "distinct (map fst rest)"
    and b: "i < nextImmediate w" "\<forall>j\<in>set (map fst rest). j < nextImmediate w"
    and p: "fset (timeoutCallbacks w) = set (taskIds ((i, job) # rest))"
    by (auto simp: settled_def wellQueued_def queuedTimeouts_def)
  from d taskIds_subset[of rest] have ni: "i \<notin> set (taskIds rest)" by blast
  from p ni have "fset (timeoutCallbacks w) - {i} = set (taskIds rest)"
    by (cases job) auto
  with d b show "running i (w\<lparr>immediateQueue := rest\<rparr>)"
    by (simp add: running_def wellQueued_def queuedTimeouts_def)
  from p show "job \<noteq> Resolve \<Longrightarrow> i |\<in>| timeoutCallbacks (w\<lparr>immediateQueue := rest\<rparr>)"
    by (cases job) auto
  from p d b show "job = Resolve \<Longrightarrow> settled (w\<lparr>immediateQueue := rest\<rparr>)"
    by (simp add: settled_def wellQueued_def queuedTimeouts_def)
qed

lemma running_forget:
  assumes "running i w"
  shows "settled (w\<lparr>timeoutCallbacks := timeoutCallbacks w |-| {|i|}\<rparr>)"
    and "i |\<notin>| timeoutCallbacks (w\<lparr>timeoutCallbacks := timeoutCallbacks w |-| {|i|}\<rparr>)"
  using assms by (auto simp: running_def settled_def wellQueued_def queuedTimeouts_def)

lemma turn_settled:
  assumes "timerDiscipline env" and "settled w"
    and "turn env (w, tr) = Some (Returned (w', tr'))"
  shows "settled w'"
    and "immediateQueue w = (i, job) # rest \<Longrightarrow> i |\<notin>| timeoutCallbacks w'"
proof -
  from assms(3) obtain i0 job0 rest0 where q: "immediateQueue w = (i0, job0) # rest0"
    by (cases "immediateQueue w") auto
  let ?w = "w\<lparr>immediateQueue := rest0\<rparr>"
  from assms(3) q have r: "runImmediate env i0 job0 (?w, tr) = Returned (w', tr')" by simp
  have "settled w' \<and> i0 |\<notin>| timeoutCallbacks w'"
  proof (cases job0)
    case Resolve
    from settled_pop(3)[OF assms(2) q Resolve] settled_pop(1)[OF assms(2) q] r Resolve
    show ?thesis by (auto simp: running_def settled_def)
  next
    case (TimeoutTask cb args)
    from r TimeoutTask obtain w1 where c: "timeoutCallback env cb args ?w = Returned w1"
      and w': "w' = w1\<lparr>timeoutCallbacks := timeoutCallbacks w1 |-| {|i0|}\<rparr>"
      by (auto simp: andThen_def logged_def split: result.splits)
    from assms(1) settled_pop(1)[OF assms(2) q] c have "running i0 w1"
      unfolding timerDiscipline_def by blast
    from running_forget[OF this] w' show ?thesis by simp
  qed
  then show "settled w'" and "immediateQueue w = (i, job) # rest \<Longrightarrow> i |\<notin>| timeoutCallbacks w'"
    using q by auto
qed

lemma runUntil_settled:
  "timerDiscipline env \<Longrightarrow> settled w \<Longrightarrow> runUntil fuel env k (w, tr) = Some (Returned (w', tr'))
   \<Longrightarrow> settled w'"
proof (induction fuel arbitrary: w tr)
  case 0
  then show ?case by simp
next
  case (Suc fuel)
  show ?case
  proof (cases "turn env (w, tr)")
    case None
    with Suc.prems(3) show ?thesis by simp
  next
    case (Some res)
    show ?thesis
    proof (cases res)
      case (Threw r1)
      with Suc.prems(3) Some show ?thesis by simp
    next
      case (Returned r1)
      obtain w1 tr1 where r1: "r1 = (w1, tr1)" by (cases r1)
      from turn_settled(1)[OF Suc.prems(1,2)] Some Returned r1 have s1: "settled w1" by blast
      show ?thesis
      proof (cases "resumes k w")
        case True
        with Suc.prems(3) Some Returned r1 s1 show ?thesis by simp
      next
        case False
        with Suc.prems(3) Some Returned r1
        have "runUntil fuel env k (w1, tr1) = Some (Returned (w', tr'))" by simp
        from Suc.IH[OF Suc.prems(1) s1 this] show ?thesis .
      qed
    qed
  qed
qed

lemma settled_enqueue_resolve:
  assumes "settled w"
  shows "settled (w\<lparr>immediateQueue := immediateQueue w @ [(nextImmediate w, Resolve)],
                   nextImmediate := Suc (nextImmediate w)\<rparr>)"
proof -
  from assms have q: "wellQueued w" and p: "fset (timeoutCallbacks w) = set (queuedTimeouts w)"
    by (auto simp: settled_def)
  from wellQueued_enqueue[OF q, of Resolve] p show ?thesis
    by (simp add: settled_def queuedTimeouts_def taskIds_append)
qed

lemma waitForQueued_empty:
  "waitForQueued fuel env r = Some (Returned r') \<Longrightarrow> timeoutCallbacks (fst r') = {||}"
proof (induction fuel arbitrary: r)
  case 0
  then show ?case by simp
next
  case (Suc fuel)
  show ?case
  proof (cases "fcard (timeoutCallbacks (fst r)) > 0")
    case False
    with Suc.prems show ?thesis by (simp add: fcard_0_eq)
  next
    case True
    with Suc.prems obtain r1 where "waitForQueued fuel env r1 = Some (Returned r')"
      by (auto split: option.splits result.splits simp del: awaitImmediate.simps)
    then show ?thesis by (rule Suc.IH)
  qed
qed

lemma waitForQueued_settled:
  "timerDiscipline env \<Longrightarrow> settled (fst r) \<Longrightarrow> waitForQueued fuel env r = Some (Returned r')
   \<Longrightarrow> settled (fst r')"
proof (induction fuel arbitrary: r)
  case 0
  then show ?case by simp
next
  case (Suc fuel)
  show ?case
  proof (cases "fcard (timeoutCallbacks (fst r)) > 0")
    case False
    with Suc.prems show ?thesis by simp
  next
    case True
    with Suc.prems(3) obtain r1 where a: "awaitImmediate fuel env r = Some (Returned r1)"
      and w: "waitForQueued fuel env r1 = Some (Returned r')"
      by (auto split: option.splits result.splits simp del: awaitImmediate.simps)
    obtain w0 tr0 where r: "r = (w0, tr0)" by (cases r)
    obtain w1 tr1 where r1: "r1 = (w1, tr1)" by (cases r1)
    from Suc.prems(2) r have "settled w0" by simp
    from settled_enqueue_resolve[OF this] a r r1 Suc.prems(1)
    have "settled w1" by (auto simp: Let_def dest: runUntil_settled)
    with Suc.IH[OF Suc.prems(1) _ w] r1 show ?thesis by simp
  qed
qed


lemma settled_create: "settled (createControlledTypeScriptSystem store)"
  by (simp add: settled_def wellQueued_def queuedTimeouts_def createControlledTypeScriptSystem_def)

lemma queueReachable_settled:
  assumes "timerDiscipline env"
  shows "queueReachable env w \<Longrightarrow> settled w"
proof (induction rule: queueReachable.induct)
  case (created store)
  show ?case by (rule settled_create)
next
  case (scheduled w cb ms args)
  then show ?case by (simp add: settled_setTimeout(1))
next
  case (cancelled w t)
  then show ?case by (simp add: settled_clearTimeout)
next
  case (fired w tr w' tr')
  from turn_settled(1)[OF assms fired.IH fired.hyps(2)] show ?case .
qed

lemma settled_chainWorld: "settled chainWorld"
  unfolding chainWorld_def by (rule settled_setTimeout(1)[OF settled_create])

lemma settled_probeWorld: "settled probeWorld"
  unfolding probeWorld_def by (rule settled_setTimeout(1)[OF settled_create])

lemma timerDiscipline_chainEnv: "timerDiscipline chainEnv"
  by (auto simp: timerDiscipline_def chainEnv_def idleEnv_def running_setTimeout split: if_splits)

lemma timerDiscipline_probeEnv: "timerDiscipline probeEnv"
  by (auto simp: timerDiscipline_def probeEnv_def running_def wellQueued_def queuedTimeouts_def)

lemma chain_drained:
  "\<exists>w'. waitForQueued 5 chainEnv (chainWorld, [])
     = Some (Returned (w', [TimeoutCall 1 [], TimeoutCall 2 [], TimeoutCall 3 []]))"
  by (simp add: eval_nat_numeral chainWorld_def chainEnv_def idleEnv_def setTimeout_def
      createControlledTypeScriptSystem_def andThen_def logged_def Let_def fcard_finsert_if)



lemma thrown_task_stays_pending:
  "map_option (\<lambda>r. (isReturned r, timeoutCallbacks (fst (stateOf r))))
     (turn (idleEnv\<lparr>timeoutCallback := (\<lambda>cb args w. Threw w)\<rparr>) (chainWorld, []))
   = Some (False, {|0|})"
  by (simp add: chainWorld_def idleEnv_def setTimeout_def createControlledTypeScriptSystem_def
      andThen_def logged_def Let_def)

section \<open>The claims\<close>

text \<open>
  C1. Claimed: a write to a file invokes every recursive directory watcher registered on a
  proper ancestor of the file's path, the root directory included. The ancestor walk of
  \<open>invokeDirectoryWatchers\<close> stops as soon as the directory is its own parent, before the
  watchers of that directory are looked up: writing \<^verbatim>\<open>/a/b/c.txt\<close> invokes the non-recursive
  watcher on \<^verbatim>\<open>/a/b\<close> and the recursive watchers on \<^verbatim>\<open>/a/b\<close> and \<^verbatim>\<open>/a\<close>, but not the
  recursive watcher on \<^verbatim>\<open>/\<close>. Writing \<^verbatim>\<open>/c.txt\<close> invokes the non-recursive watcher on \<^verbatim>\<open>/\<close>
  and, again, not the recursive one.
\<close>

theorem root_recursive_watcher_not_invoked:
  "snd (stateOf (writeFile idleEnv ''/a/b/c.txt'' ''x'' (ancestorsWorld, []))) =
     [DirectoryWatcherCall 4 ''/a/b/c.txt'', DirectoryWatcherCall 3 ''/a/b/c.txt'',
      DirectoryWatcherCall 2 ''/a/b/c.txt'']
   \<and> snd (stateOf (writeFile idleEnv ''/c.txt'' ''x'' (ancestorsWorld, []))) =
     [DirectoryWatcherCall 6 ''/c.txt'']"
  by (simp add: ancestorsWorld_def createControlledTypeScriptSystem_def idleEnv_def
      watchDirectory_def createWatcher_def watchersAt_def writeFile_def invokeFileChanged_def
      invokeDirectoryWatchers_def andThen_def logged_def markedDeleted_def
      dirname_examples ancestorWalk_step ancestorWalk_stop Let_def)

text \<open>
  C2. Claimed: when the identical callback is registered twice on a path, closing one of
  the two handles leaves the other registration active. A handle holds the registry, the
  path and the callback and nothing that tells the two registrations apart, and \<open>close\<close>
  filters the callback out of the list: closing either handle removes both registrations,
  the entry of the path is pruned and the next write invokes no file watcher.
\<close>

theorem closing_one_of_two_equal_registrations_removes_both:
  "fst (watchFile idleEnv ''/src/a.ts'' 7 (createControlledTypeScriptSystem ()))
     = Watcher FileWatchers ''/src/a.ts'' 7
   \<and> fileWatchersMap twiceWatchedWorld ''/src/a.ts'' = Some [7, 7]
   \<and> fileWatchersMap (close (Watcher FileWatchers ''/src/a.ts'' 7) twiceWatchedWorld) ''/src/a.ts''
     = None
   \<and> snd (stateOf (writeFile idleEnv ''/src/a.ts'' ''x''
        (close (Watcher FileWatchers ''/src/a.ts'' 7) twiceWatchedWorld, []))) = []"
  by (simp add: twiceWatchedWorld_def example_simps)

text \<open>
  C2, as amended. For every path and callback, closing a handle removes every registration
  of the handle's callback on the handle's path (so the identical callback registered twice
  is removed entirely by one close), and keeps the registrations of all other callbacks on
  that path, in their order, and every other path: a subsequent notification for the path
  invokes exactly the registrations of the other callbacks, provided they return.
\<close>

theorem close_removes_every_registration_of_its_callback:
  assumes "\<forall>x\<in>set (watchersAt (fileWatchersMap w) path).
             \<forall>w'. isReturned (fileWatcherCallback env x path event w')"
  shows "watchersAt (closeWatcher watchersMap path cb) path
           = filter (\<lambda>watcher. watcher \<noteq> cb) (watchersAt watchersMap path)
       \<and> (\<forall>q. q \<noteq> path \<longrightarrow> closeWatcher watchersMap path cb q = watchersMap q)
       \<and> (\<exists>w'. invokeFileWatchers env path event (close (Watcher FileWatchers path cb) w, tr)
             = Returned (w', tr @ map (\<lambda>x. FileWatcherCall x path event)
                 (filter (\<lambda>watcher. watcher \<noteq> cb) (watchersAt (fileWatchersMap w) path))))"
proof -
  let ?w = "close (Watcher FileWatchers path cb) w"
  have ws: "watchersAt (fileWatchersMap ?w) path
      = filter (\<lambda>watcher. watcher \<noteq> cb) (watchersAt (fileWatchersMap w) path)"
    by (simp add: watchersAt_closeWatcher)
  have "\<exists>w'. invokeFileWatchers env path event (?w, tr) = Returned (w', tr @ fileCalls ?w path event)"
    by (rule invokeFileWatchers_returned) (use assms ws in auto)
  then show ?thesis
    unfolding fileCalls_def ws
    by (simp add: watchersAt_closeWatcher closeWatcher_other del: invokeFileWatchers.simps close.simps)
qed

theorem close_removes_every_registration_of_its_callback_witness:
  "fileWatchersMap pairWorld ''/src/a.ts'' = Some [1, 2]
   \<and> watchersAt (closeWatcher (fileWatchersMap pairWorld) ''/src/a.ts'' 1) ''/src/a.ts'' = [2]
   \<and> snd (stateOf (invokeFileWatchers idleEnv ''/src/a.ts'' Changed
        (close (Watcher FileWatchers ''/src/a.ts'' 1) pairWorld, [])))
       = [FileWatcherCall 2 ''/src/a.ts'' Changed]"
proof -
  let ?p = "''/src/a.ts''"
  have ws: "fileWatchersMap pairWorld ?p = Some [1, 2]"
    by (simp add: pairWorld_def example_simps)
  then have at: "watchersAt (fileWatchersMap pairWorld) ?p = [1, 2]"
    by (simp add: watchersAt_def)
  have h: "\<forall>x\<in>set (watchersAt (fileWatchersMap pairWorld) ?p).
             \<forall>w'. isReturned (fileWatcherCallback idleEnv x ?p Changed w')"
    by (simp add: idleEnv_def)
  note inst = close_removes_every_registration_of_its_callback[OF h,
      of "fileWatchersMap pairWorld" 1 "[]"]
  from inst have a: "watchersAt (closeWatcher (fileWatchersMap pairWorld) ?p 1) ?p = [2]"
    by (simp add: at)
  from inst obtain w' where "invokeFileWatchers idleEnv ?p Changed
        (close (Watcher FileWatchers ?p 1) pairWorld, [])
      = Returned (w', [] @ map (\<lambda>x. FileWatcherCall x ?p Changed)
                 (filter (\<lambda>watcher. watcher \<noteq> 1) (watchersAt (fileWatchersMap pairWorld) ?p)))"
    by blast
  then have b: "snd (stateOf (invokeFileWatchers idleEnv ?p Changed
        (close (Watcher FileWatchers ?p 1) pairWorld, []))) = [FileWatcherCall 2 ?p Changed]"
    by (simp add: at del: invokeFileWatchers.simps close.simps)
  from ws a b show ?thesis by blast
qed

text \<open>
  C3. Claimed: the task is removed from the pending set immediately before its callback
  begins to execute, so that a task that is executing is no longer a member. The closure
  that \<open>setTimeout\<close> queues calls the callback first and deletes the task afterwards. Here
  one task is scheduled (task 0) and its callback copies the pending set it runs with into
  the store: it finds \<open>{|0|}\<close>, and the set is empty only after the turn.
\<close>

theorem executing_task_is_still_pending:
  "fst (setTimeout 1 250 [] (createControlledTypeScriptSystem {||})) = 0
   \<and> timeoutCallbacks probeWorld = {|0|}
   \<and> turn probeEnv (probeWorld, [])
       = Some (Returned (probeWorld\<lparr>timeoutCallbacks := {||}, fileSystem := {|0|},
                                     immediateQueue := []\<rparr>,
                         [TimeoutCall 1 []]))"
  by (simp add: probeWorld_def probeEnv_def setTimeout_def createControlledTypeScriptSystem_def
      andThen_def logged_def Let_def)

text \<open>
  C3, as amended. In every world that the queue can be seen in between two turns, the size
  of the pending set is the number of scheduled callbacks that have not fired:
  \<open>setTimeout\<close> adds a new task to the set and \<open>clearTimeout\<close> takes the task out of the set
  and the queue; the turn of a task calls its callback while the task is still a member
  and removes the task right after the callback has returned; and after a turn that
  returns, the set again holds exactly the tasks that wait in the queue (for callbacks
  that reach the set and the queue through \<open>setTimeout\<close> and \<open>clearTimeout\<close>).
\<close>

theorem pending_set_between_turns:
  assumes "settled w"
  shows "fcard (timeoutCallbacks w) = length (queuedTimeouts w)
     \<and> fst (setTimeout cb ms args w) |\<notin>| timeoutCallbacks w
     \<and> fst (setTimeout cb ms args w) |\<in>| timeoutCallbacks (snd (setTimeout cb ms args w))
     \<and> settled (snd (setTimeout cb ms args w))
     \<and> settled (clearTimeout t w)
     \<and> t |\<notin>| timeoutCallbacks (clearTimeout t w)
     \<and> t \<notin> set (queuedTimeouts (clearTimeout t w))
     \<and> timeoutCallbacks (clearTimeout t w) = timeoutCallbacks w |-| {|t|}
     \<and> queuedTimeouts (clearTimeout t w) = filter (\<lambda>j. j \<noteq> t) (queuedTimeouts w)
     \<and> (immediateQueue w = (i, TimeoutTask cb' args') # rest \<longrightarrow>
          i |\<in>| timeoutCallbacks (w\<lparr>immediateQueue := rest\<rparr>)
          \<and> turn env (w, tr)
              = Some (andThen (callTimeout env cb' args' (w\<lparr>immediateQueue := rest\<rparr>, tr))
                        (forgetTimeout i)))
     \<and> (timerDiscipline env \<and> immediateQueue w = (i, job) # rest
          \<and> turn env (w, tr) = Some (Returned (w', tr'))
        \<longrightarrow> i |\<notin>| timeoutCallbacks w' \<and> settled w')
     \<and> (timerDiscipline env \<and> queueReachable env v \<longrightarrow> settled v)"
proof (intro conjI impI)
  show "fcard (timeoutCallbacks w) = length (queuedTimeouts w)"
    using assms by (rule settled_card)
  show "fst (setTimeout cb ms args w) |\<notin>| timeoutCallbacks w"
    using assms by (rule settled_setTimeout(3))
  show "fst (setTimeout cb ms args w) |\<in>| timeoutCallbacks (snd (setTimeout cb ms args w))"
    using assms by (rule settled_setTimeout(2))
  show "settled (snd (setTimeout cb ms args w))"
    using assms by (rule settled_setTimeout(1))
  show "settled (clearTimeout t w)"
    using assms by (rule settled_clearTimeout)
  show "t |\<notin>| timeoutCallbacks (clearTimeout t w)"
    by (rule clearTimeout_removes(1))
  show "t \<notin> set (queuedTimeouts (clearTimeout t w))"
    by (rule clearTimeout_removes(2))
  show "timeoutCallbacks (clearTimeout t w) = timeoutCallbacks w |-| {|t|}"
    by (rule clearTimeout_removes(4))
  show "queuedTimeouts (clearTimeout t w) = filter (\<lambda>j. j \<noteq> t) (queuedTimeouts w)"
    by (rule clearTimeout_removes(3))
next
  assume q: "immediateQueue w = (i, TimeoutTask cb' args') # rest"
  from settled_pop(2)[OF assms q] show "i |\<in>| timeoutCallbacks (w\<lparr>immediateQueue := rest\<rparr>)"
    by simp
  from q show "turn env (w, tr)
      = Some (andThen (callTimeout env cb' args' (w\<lparr>immediateQueue := rest\<rparr>, tr))
                (forgetTimeout i))"
    by simp
next
  assume a: "timerDiscipline env \<and> immediateQueue w = (i, job) # rest
          \<and> turn env (w, tr) = Some (Returned (w', tr'))"
  then have d: "timerDiscipline env" and q: "immediateQueue w = (i, job) # rest"
    and t: "turn env (w, tr) = Some (Returned (w', tr'))" by blast+
  from turn_settled(2)[OF d assms t q] show "i |\<notin>| timeoutCallbacks w'" .
  from turn_settled(1)[OF d assms t] show "settled w'" .
next
  assume "timerDiscipline env \<and> queueReachable env v"
  then show "settled v" using queueReachable_settled by blast
qed

theorem pending_set_between_turns_witness:
  "settled probeWorld \<and> timerDiscipline probeEnv \<and> queueReachable probeEnv probeWorld
   \<and> immediateQueue probeWorld = [(0, TimeoutTask 1 [])]
   \<and> fcard (timeoutCallbacks probeWorld) = 1
   \<and> 0 |\<in>| timeoutCallbacks probeWorld
   \<and> 0 |\<notin>| timeoutCallbacks (clearTimeout 0 probeWorld)
   \<and> queuedTimeouts (clearTimeout 0 probeWorld) = []
   \<and> 0 |\<in>| timeoutCallbacks (probeWorld\<lparr>immediateQueue := []\<rparr>)
   \<and> map_option (\<lambda>r. 0 |\<in>| timeoutCallbacks (fst (stateOf r))) (turn probeEnv (probeWorld, []))
       = Some False"
proof -
  have q: "immediateQueue probeWorld = (0, TimeoutTask 1 []) # []"
    by (simp add: probeWorld_def setTimeout_def createControlledTypeScriptSystem_def Let_def)
  have len: "length (queuedTimeouts probeWorld) = 1"
    by (simp add: queuedTimeouts_def q)
  have reach: "queueReachable probeEnv probeWorld"
    unfolding probeWorld_def by (intro queueReachable.scheduled queueReachable.created)
  obtain w' where t: "turn probeEnv (probeWorld, []) = Some (Returned (w', [TimeoutCall 1 []]))"
    by (simp add: probeWorld_def probeEnv_def setTimeout_def createControlledTypeScriptSystem_def
      andThen_def logged_def Let_def)
  note inst = pending_set_between_turns[OF settled_probeWorld,
      where i = 0 and cb' = 1 and args' = "[]" and rest = "[]" and env = probeEnv and tr = "[]"
        and job = "TimeoutTask 1 []" and w' = w' and tr' = "[TimeoutCall 1 []]"
        and cb = 1 and ms = 250 and args = "[]" and t = 0 and v = probeWorld]
  from inst len have a: "fcard (timeoutCallbacks probeWorld) = 1" by simp
  have qt: "queuedTimeouts probeWorld = [0]"
    by (simp add: queuedTimeouts_def q)
  have m: "0 |\<in>| timeoutCallbacks probeWorld"
    by (simp add: probeWorld_def setTimeout_def createControlledTypeScriptSystem_def Let_def)
  from inst have e: "0 |\<notin>| timeoutCallbacks (clearTimeout 0 probeWorld)" by blast
  from inst have "queuedTimeouts (clearTimeout 0 probeWorld)
      = filter (\<lambda>j. j \<noteq> 0) (queuedTimeouts probeWorld)" by blast
  with qt have f: "queuedTimeouts (clearTimeout 0 probeWorld) = []" by simp
  from inst q have b: "0 |\<in>| timeoutCallbacks (probeWorld\<lparr>immediateQueue := []\<rparr>)" by blast
  from inst timerDiscipline_probeEnv q t have "0 |\<notin>| timeoutCallbacks w'" by blast
  with t have c: "map_option (\<lambda>r. 0 |\<in>| timeoutCallbacks (fst (stateOf r)))
      (turn probeEnv (probeWorld, [])) = Some False" by simp
  from a b c e f m q reach settled_probeWorld timerDiscipline_probeEnv show ?thesis by simp
qed

text \<open>
  C4. Claimed: whatever fires a "changed" or "created" file notification for a path marked
  deleted sets the mark to false; in particular \<open>setModifiedTime\<close> on a path marked deleted
  leaves the mark false. \<open>setModifiedTime\<close> calls \<open>invokeFileWatchers\<close> with \<open>Changed\<close>
  itself and never touches \<open>deletedFiles\<close>: the mark is still true afterwards.
\<close>

theorem setModifiedTime_leaves_deleted_mark:
  "markedDeleted deletedWorld ''/src/a.ts''
   \<and> snd (stateOf (setModifiedTime idleEnv ''/src/a.ts'' 5 (deletedWorld, [])))
       = [DirectoryWatcherCall 2 ''/src/a.ts'', FileWatcherCall 1 ''/src/a.ts'' Changed]
   \<and> deletedFiles (fst (stateOf (setModifiedTime idleEnv ''/src/a.ts'' 5 (deletedWorld, []))))
        ''/src/a.ts'' = Some True"
  by (simp add: deletedWorld_def watchedWorld_def example_simps)

text \<open>
  C4, as amended. For every path marked deleted and callbacks that only observe: the change
  notification (\<open>invokeFileChanged\<close>, and \<open>writeFile\<close> through it) invokes the file watchers
  with \<open>Created\<close> and then sets the mark to false; \<open>setModifiedTime\<close> invokes the file
  watchers with \<open>Changed\<close> and leaves the mark true.
\<close>

theorem change_notification_clears_deleted_mark:
  assumes "observers env" and "markedDeleted w (normalizePath env path)"
  shows "(\<exists>w'. invokeFileChanged env path (w, tr)
             = Returned (w', tr @ directoryCalls w (normalizePath env path)
                               @ fileCalls w (normalizePath env path) Created)
           \<and> deletedFiles w' (normalizePath env path) = Some False)
       \<and> (\<exists>w'. writeFile env path data (w, tr)
             = Returned (w', tr @ directoryCalls w (normalizePath env path)
                               @ fileCalls w (normalizePath env path) Created)
           \<and> deletedFiles w' (normalizePath env path) = Some False)
       \<and> (\<exists>w'. setModifiedTime env path date (w, tr)
             = Returned (w', tr @ directoryCalls w (normalizePath env path)
                               @ fileCalls w (normalizePath env path) Changed)
           \<and> deletedFiles w' (normalizePath env path) = Some True)"
proof (intro conjI)
  show "\<exists>w'. invokeFileChanged env path (w, tr)
             = Returned (w', tr @ directoryCalls w (normalizePath env path)
                               @ fileCalls w (normalizePath env path) Created)
           \<and> deletedFiles w' (normalizePath env path) = Some False"
    using invokeFileChanged_observers[OF assms(1), of path w tr] assms(2) by auto
  show "\<exists>w'. writeFile env path data (w, tr)
             = Returned (w', tr @ directoryCalls w (normalizePath env path)
                               @ fileCalls w (normalizePath env path) Created)
           \<and> deletedFiles w' (normalizePath env path) = Some False"
    using invokeFileChanged_observers[OF assms(1),
        of path "w\<lparr>fileSystem := storeWriteFile env path data (fileSystem w)\<rparr>" tr] assms(2)
    by (auto simp: writeFile_def markedDeleted_def)
  show "\<exists>w'. setModifiedTime env path date (w, tr)
             = Returned (w', tr @ directoryCalls w (normalizePath env path)
                               @ fileCalls w (normalizePath env path) Changed)
           \<and> deletedFiles w' (normalizePath env path) = Some True"
    using setModifiedTime_observers[OF assms(1), of path date w tr] assms(2)
    by (auto simp: markedDeleted_def)
qed

theorem change_notification_clears_deleted_mark_witness:
  "observers idleEnv \<and> markedDeleted deletedWorld ''/src/a.ts''
   \<and> snd (stateOf (invokeFileChanged idleEnv ''/src/a.ts'' (deletedWorld, [])))
       = [DirectoryWatcherCall 2 ''/src/a.ts'', FileWatcherCall 1 ''/src/a.ts'' Created]
   \<and> deletedFiles (fst (stateOf (invokeFileChanged idleEnv ''/src/a.ts'' (deletedWorld, []))))
        ''/src/a.ts'' = Some False"
proof -
  let ?p = "''/src/a.ts''"
  from change_notification_clears_deleted_mark[OF observers_idleEnv, of deletedWorld ?p "[]"]
    deletedWorld_marked
  obtain w' where "invokeFileChanged idleEnv ?p (deletedWorld, [])
      = Returned (w', [] @ directoryCalls deletedWorld (normalizePath idleEnv ?p)
                        @ fileCalls deletedWorld (normalizePath idleEnv ?p) Created)"
    and "deletedFiles w' (normalizePath idleEnv ?p) = Some False"
    by auto
  then have "snd (stateOf (invokeFileChanged idleEnv ?p (deletedWorld, [])))
       = [DirectoryWatcherCall 2 ?p, FileWatcherCall 1 ?p Created]"
    and "deletedFiles (fst (stateOf (invokeFileChanged idleEnv ?p (deletedWorld, [])))) ?p
       = Some False"
    by (simp_all add: deletedWorld_calls)
  with observers_idleEnv deletedWorld_marked show ?thesis by blast
qed

text \<open>
  C5. For callbacks that only observe: a write to a path that is not marked deleted
  invokes the directory watchers and then every file watcher of the path with \<open>Changed\<close>;
  a write to a path that is marked deleted invokes the directory watchers and then every
  file watcher once with \<open>Created\<close>, and clears the mark, so that the next write to the
  path invokes the file watchers with \<open>Changed\<close> again. The directory notification is part
  of every one of these writes.
\<close>

theorem write_fires_changed_or_created:
  assumes "observers env"
  shows "(\<not> markedDeleted w (normalizePath env path) \<longrightarrow>
            (\<exists>w'. writeFile env path data (w, tr)
                     = Returned (w', tr @ directoryCalls w (normalizePath env path)
                                       @ fileCalls w (normalizePath env path) Changed)
                 \<and> \<not> markedDeleted w' (normalizePath env path)))
       \<and> (markedDeleted w (normalizePath env path) \<longrightarrow>
            (\<exists>w' w''. writeFile env path data (w, tr)
                     = Returned (w', tr @ directoryCalls w (normalizePath env path)
                                       @ fileCalls w (normalizePath env path) Created)
                 \<and> \<not> markedDeleted w' (normalizePath env path)
                 \<and> writeFile env path data' (w', tr')
                     = Returned (w'', tr' @ directoryCalls w' (normalizePath env path)
                                        @ fileCalls w' (normalizePath env path) Changed)))"
proof -
  let ?np = "normalizePath env path"
  have changed: "\<exists>w'. writeFile env path d (v, t)
           = Returned (w', t @ directoryCalls v ?np @ fileCalls v ?np Changed)
         \<and> \<not> markedDeleted w' ?np"
    if "\<not> markedDeleted v ?np" for v :: "'a world" and t d
    using invokeFileChanged_observers[OF assms,
        of path "v\<lparr>fileSystem := storeWriteFile env path d (fileSystem v)\<rparr>" t] that
    by (auto simp: writeFile_def markedDeleted_def)
  have created: "\<exists>w'. writeFile env path data (w, tr)
           = Returned (w', tr @ directoryCalls w ?np @ fileCalls w ?np Created)
         \<and> \<not> markedDeleted w' ?np"
    if "markedDeleted w ?np"
    using invokeFileChanged_observers[OF assms,
        of path "w\<lparr>fileSystem := storeWriteFile env path data (fileSystem w)\<rparr>" tr] that
    by (auto simp: writeFile_def markedDeleted_def)
  show ?thesis
  proof (intro conjI impI)
    assume "\<not> markedDeleted w ?np"
    then show "\<exists>w'. writeFile env path data (w, tr)
           = Returned (w', tr @ directoryCalls w ?np @ fileCalls w ?np Changed)
         \<and> \<not> markedDeleted w' ?np" by (rule changed)
  next
    assume "markedDeleted w ?np"
    from created[OF this] obtain w' where 1: "writeFile env path data (w, tr)
           = Returned (w', tr @ directoryCalls w ?np @ fileCalls w ?np Created)"
      and 2: "\<not> markedDeleted w' ?np" by blast
    from changed[OF 2, of data' tr'] obtain w'' where "writeFile env path data' (w', tr')
           = Returned (w'', tr' @ directoryCalls w' ?np @ fileCalls w' ?np Changed)" by blast
    with 1 2 show "\<exists>w' w''. writeFile env path data (w, tr)
                     = Returned (w', tr @ directoryCalls w ?np @ fileCalls w ?np Created)
                 \<and> \<not> markedDeleted w' ?np
                 \<and> writeFile env path data' (w', tr')
                     = Returned (w'', tr' @ directoryCalls w' ?np @ fileCalls w' ?np Changed)"
      by blast
  qed
qed

theorem write_fires_changed_or_created_witness:
  "observers idleEnv
   \<and> \<not> markedDeleted watchedWorld ''/src/a.ts''
   \<and> snd (stateOf (writeFile idleEnv ''/src/a.ts'' ''x'' (watchedWorld, [])))
       = [DirectoryWatcherCall 2 ''/src/a.ts'', FileWatcherCall 1 ''/src/a.ts'' Changed]
   \<and> markedDeleted deletedWorld ''/src/a.ts''
   \<and> snd (stateOf (writeFile idleEnv ''/src/a.ts'' ''x'' (deletedWorld, [])))
       = [DirectoryWatcherCall 2 ''/src/a.ts'', FileWatcherCall 1 ''/src/a.ts'' Created]
   \<and> snd (stateOf (writeFile idleEnv ''/src/a.ts'' ''y''
         (fst (stateOf (writeFile idleEnv ''/src/a.ts'' ''x'' (deletedWorld, []))), [])))
       = [DirectoryWatcherCall 2 ''/src/a.ts'', FileWatcherCall 1 ''/src/a.ts'' Changed]"
proof -
  let ?p = "''/src/a.ts''"
  note thm1 = write_fires_changed_or_created[OF observers_idleEnv,
      of watchedWorld ?p "''x''" "[]"]
  note thm2 = write_fires_changed_or_created[OF observers_idleEnv,
      of deletedWorld ?p "''x''" "[]" "''y''" "[]"]
  from thm1 watchedWorld_unmarked
  obtain w1 where "writeFile idleEnv ?p ''x'' (watchedWorld, [])
      = Returned (w1, [] @ directoryCalls watchedWorld ?p @ fileCalls watchedWorld ?p Changed)"
    by auto
  then have a: "snd (stateOf (writeFile idleEnv ?p ''x'' (watchedWorld, [])))
      = [DirectoryWatcherCall 2 ?p, FileWatcherCall 1 ?p Changed]"
    by (simp add: watchedWorld_calls)
  from thm2 deletedWorld_marked
  obtain w2 w3 where b: "writeFile idleEnv ?p ''x'' (deletedWorld, [])
      = Returned (w2, [] @ directoryCalls deletedWorld ?p @ fileCalls deletedWorld ?p Created)"
    and c: "writeFile idleEnv ?p ''y'' (w2, [])
      = Returned (w3, [] @ directoryCalls w2 ?p @ fileCalls w2 ?p Changed)"
    by auto
  from b have b': "snd (stateOf (writeFile idleEnv ?p ''x'' (deletedWorld, [])))
      = [DirectoryWatcherCall 2 ?p, FileWatcherCall 1 ?p Created]"
    by (simp add: deletedWorld_calls)
  from b have w2: "fst (stateOf (writeFile idleEnv ?p ''x'' (deletedWorld, []))) = w2" by simp
  have "directoryCalls (fst (stateOf (writeFile idleEnv ?p ''x'' (deletedWorld, [])))) ?p
      = [DirectoryWatcherCall 2 ?p]"
    "fileCalls (fst (stateOf (writeFile idleEnv ?p ''x'' (deletedWorld, [])))) ?p Changed
      = [FileWatcherCall 1 ?p Changed]"
    by (simp_all add: deletedWorld_def watchedWorld_def example_simps)
  with c w2 have c': "snd (stateOf (writeFile idleEnv ?p ''y''
         (fst (stateOf (writeFile idleEnv ?p ''x'' (deletedWorld, []))), [])))
       = [DirectoryWatcherCall 2 ?p, FileWatcherCall 1 ?p Changed]"
    by simp
  from a b' c' observers_idleEnv watchedWorld_unmarked deletedWorld_marked
  show ?thesis by blast
qed

text \<open>
  C6. A delete notification for a path that is marked deleted returns at once: no callback
  is called and nothing changes. Whenever a delete notification returns, the path is
  marked deleted, so that a further delete notification fires nothing. For callbacks that
  only observe, the delete notification for a path that is not marked deleted invokes the
  directory watchers and then every file watcher of the path, once, with \<open>Deleted\<close>.
\<close>

theorem delete_notification_is_idempotent:
  "(markedDeleted w (normalizePath env path)
      \<longrightarrow> invokeFileDeleted env path (w, tr) = Returned (w, tr))
   \<and> (invokeFileDeleted env path (w, tr) = Returned (w1, tr1)
      \<longrightarrow> markedDeleted w1 (normalizePath env path)
          \<and> invokeFileDeleted env path (w1, tr2) = Returned (w1, tr2))
   \<and> (observers env \<and> \<not> markedDeleted w (normalizePath env path)
      \<longrightarrow> (\<exists>w'. invokeFileDeleted env path (w, tr)
                  = Returned (w', tr @ directoryCalls w (normalizePath env path)
                                    @ fileCalls w (normalizePath env path) Deleted)))"
proof (intro conjI impI)
  assume "markedDeleted w (normalizePath env path)"
  then show "invokeFileDeleted env path (w, tr) = Returned (w, tr)"
    by (rule invokeFileDeleted_marked)
next
  assume r: "invokeFileDeleted env path (w, tr) = Returned (w1, tr1)"
  then show m: "markedDeleted w1 (normalizePath env path)" by (rule invokeFileDeleted_marks)
  then show "invokeFileDeleted env path (w1, tr2) = Returned (w1, tr2)"
    by (rule invokeFileDeleted_marked)
next
  assume "observers env \<and> \<not> markedDeleted w (normalizePath env path)"
  then show "\<exists>w'. invokeFileDeleted env path (w, tr)
                  = Returned (w', tr @ directoryCalls w (normalizePath env path)
                                    @ fileCalls w (normalizePath env path) Deleted)"
    using invokeFileDeleted_observers[of env w path tr] by blast
qed

theorem delete_notification_is_idempotent_witness:
  "observers idleEnv \<and> \<not> markedDeleted watchedWorld ''/src/a.ts''
   \<and> snd (stateOf (invokeFileDeleted idleEnv ''/src/a.ts'' (watchedWorld, [])))
       = [DirectoryWatcherCall 2 ''/src/a.ts'', FileWatcherCall 1 ''/src/a.ts'' Deleted]
   \<and> markedDeleted deletedWorld ''/src/a.ts''
   \<and> invokeFileDeleted idleEnv ''/src/a.ts''
         (deletedWorld, [DirectoryWatcherCall 2 ''/src/a.ts'', FileWatcherCall 1 ''/src/a.ts'' Deleted])
       = Returned (deletedWorld,
           [DirectoryWatcherCall 2 ''/src/a.ts'', FileWatcherCall 1 ''/src/a.ts'' Deleted])"
proof -
  let ?p = "''/src/a.ts''"
  let ?tr = "[DirectoryWatcherCall 2 ?p, FileWatcherCall 1 ?p Deleted]"
  note first = delete_notification_is_idempotent[where w = watchedWorld and env = idleEnv
      and path = ?p and tr = "[]" and ?w1.0 = watchedWorld and ?tr1.0 = "[]" and ?tr2.0 = "[]",
      THEN conjunct2, THEN conjunct2, rule_format]
  note again = delete_notification_is_idempotent[where w = deletedWorld and env = idleEnv
      and path = ?p and tr = ?tr and ?w1.0 = deletedWorld and ?tr1.0 = "[]" and ?tr2.0 = "[]",
      THEN conjunct1, rule_format]
  have "observers idleEnv \<and> \<not> markedDeleted watchedWorld (normalizePath idleEnv ?p)"
    using observers_idleEnv watchedWorld_unmarked by simp
  from first[OF this]
  obtain w' where "invokeFileDeleted idleEnv ?p (watchedWorld, [])
      = Returned (w', [] @ directoryCalls watchedWorld (normalizePath idleEnv ?p)
                        @ fileCalls watchedWorld (normalizePath idleEnv ?p) Deleted)"
    by blast
  then have a: "snd (stateOf (invokeFileDeleted idleEnv ?p (watchedWorld, []))) = ?tr"
    by (simp add: watchedWorld_calls)
  have "markedDeleted deletedWorld (normalizePath idleEnv ?p)"
    using deletedWorld_marked by simp
  then have b: "invokeFileDeleted idleEnv ?p (deletedWorld, ?tr) = Returned (deletedWorld, ?tr)"
    by (rule again)
  from a b observers_idleEnv watchedWorld_unmarked deletedWorld_marked show ?thesis by blast
qed

text \<open>
  C7. Whenever \<open>waitForQueued\<close> returns, the pending set is empty; and when the system was
  settled as it was called (and the callbacks reach the set and the queue through
  \<open>setTimeout\<close> and \<open>clearTimeout\<close>), no scheduled task waits in the queue any more: every
  task, also one scheduled by a task that fired meanwhile, has fired or was cancelled. In
  the witness task 1 schedules task 2, which schedules task 3: \<open>waitForQueued\<close> returns after
  the three have fired, with an empty pending set.
\<close>

theorem drain_returns_with_nothing_pending:
  "waitForQueued fuel env (w, tr) = Some (Returned (w', tr'))
   \<longrightarrow> timeoutCallbacks w' = {||}
       \<and> (timerDiscipline env \<and> settled w \<longrightarrow> queuedTimeouts w' = [] \<and> settled w')"
proof (intro impI conjI)
  assume r: "waitForQueued fuel env (w, tr) = Some (Returned (w', tr'))"
  from waitForQueued_empty[OF r] show e: "timeoutCallbacks w' = {||}" by simp
  assume "timerDiscipline env \<and> settled w"
  with waitForQueued_settled[OF _ _ r] show s: "settled w'" by simp
  with e show "queuedTimeouts w' = []" by (simp add: settled_def)
qed

theorem drain_returns_with_nothing_pending_witness:
  "timerDiscipline chainEnv \<and> settled chainWorld
   \<and> map_option (\<lambda>r. snd (stateOf r)) (waitForQueued 5 chainEnv (chainWorld, []))
       = Some [TimeoutCall 1 [], TimeoutCall 2 [], TimeoutCall 3 []]
   \<and> map_option (\<lambda>r. timeoutCallbacks (fst (stateOf r))) (waitForQueued 5 chainEnv (chainWorld, []))
       = Some {||}
   \<and> map_option (\<lambda>r. queuedTimeouts (fst (stateOf r))) (waitForQueued 5 chainEnv (chainWorld, []))
       = Some []"
proof -
  from chain_drained obtain w' where r: "waitForQueued 5 chainEnv (chainWorld, [])
     = Some (Returned (w', [TimeoutCall 1 [], TimeoutCall 2 [], TimeoutCall 3 []]))" by blast
  from drain_returns_with_nothing_pending[of 5 chainEnv chainWorld "[]" w'
      "[TimeoutCall 1 [], TimeoutCall 2 [], TimeoutCall 3 []]"] r
    timerDiscipline_chainEnv settled_chainWorld
  have "timeoutCallbacks w' = {||}" and "queuedTimeouts w' = []" by blast+
  with r timerDiscipline_chainEnv settled_chainWorld show ?thesis by simp
qed


text \<open>
  C8. A file notification calls the callbacks that were registered for the path when it
  began, in registration order, and no others, whatever the callbacks do to the registry
  meanwhile: the calls it makes are those of a prefix of that list, and of the whole list
  when the callbacks return. (In the witness, the first callback registers a third and
  closes the second: the pass still calls the second and does not call the third, and the
  registry holds the first and the third afterwards.)
\<close>

theorem file_notification_works_on_a_snapshot:
  "(\<exists>k\<le>length (watchersAt (fileWatchersMap w) path).
       snd (stateOf (invokeFileWatchers env path event (w, tr)))
         = tr @ map (\<lambda>cb. FileWatcherCall cb path event)
                  (take k (watchersAt (fileWatchersMap w) path)))
   \<and> ((\<forall>cb\<in>set (watchersAt (fileWatchersMap w) path).
          \<forall>w'. isReturned (fileWatcherCallback env cb path event w'))
        \<longrightarrow> (\<exists>w'. invokeFileWatchers env path event (w, tr)
               = Returned (w', tr @ map (\<lambda>cb. FileWatcherCall cb path event)
                                      (watchersAt (fileWatchersMap w) path))))"
proof (intro conjI impI)
  show "\<exists>k\<le>length (watchersAt (fileWatchersMap w) path).
       snd (stateOf (invokeFileWatchers env path event (w, tr)))
         = tr @ map (\<lambda>cb. FileWatcherCall cb path event)
                  (take k (watchersAt (fileWatchersMap w) path))"
  proof (cases "fileWatchersMap w path")
    case None
    then show ?thesis by (simp add: watchersAt_def)
  next
    case (Some ws)
    from forEach_logged_prefix[of ws "\<lambda>x. FileWatcherCall x path event"
        "\<lambda>x. fileWatcherCallback env x path event" w tr]
    show ?thesis using Some by (simp add: watchersAt_def callFileWatcher_logged)
  qed
next
  assume "\<forall>cb\<in>set (watchersAt (fileWatchersMap w) path).
          \<forall>w'. isReturned (fileWatcherCallback env cb path event w')"
  then have "\<exists>w'. invokeFileWatchers env path event (w, tr)
      = Returned (w', tr @ fileCalls w path event)"
    by (intro invokeFileWatchers_returned) auto
  then show "\<exists>w'. invokeFileWatchers env path event (w, tr)
               = Returned (w', tr @ map (\<lambda>cb. FileWatcherCall cb path event)
                                      (watchersAt (fileWatchersMap w) path))"
    by (simp add: fileCalls_def del: invokeFileWatchers.simps)
qed

theorem file_notification_works_on_a_snapshot_witness:
  "fileWatchersMap pairWorld ''/src/a.ts'' = Some [1, 2]
   \<and> snd (stateOf (invokeFileWatchers meddlingEnv ''/src/a.ts'' Changed (pairWorld, [])))
       = [FileWatcherCall 1 ''/src/a.ts'' Changed, FileWatcherCall 2 ''/src/a.ts'' Changed]
   \<and> fileWatchersMap (fst (stateOf (invokeFileWatchers meddlingEnv ''/src/a.ts'' Changed
        (pairWorld, [])))) ''/src/a.ts'' = Some [1, 3]"
proof -
  let ?p = "''/src/a.ts''"
  have ws: "fileWatchersMap pairWorld ?p = Some [1, 2]"
    by (simp add: pairWorld_def example_simps)
  then have at: "watchersAt (fileWatchersMap pairWorld) ?p = [1, 2]"
    by (simp add: watchersAt_def)
  have h: "\<forall>cb\<in>set (watchersAt (fileWatchersMap pairWorld) ?p).
             \<forall>w'. isReturned (fileWatcherCallback meddlingEnv cb ?p Changed w')"
    by (simp add: meddlingEnv_def idleEnv_def)
  from file_notification_works_on_a_snapshot[of pairWorld ?p meddlingEnv Changed "[]"] h
  obtain w' where "invokeFileWatchers meddlingEnv ?p Changed (pairWorld, [])
      = Returned (w', [] @ map (\<lambda>cb. FileWatcherCall cb ?p Changed)
                             (watchersAt (fileWatchersMap pairWorld) ?p))"
    by blast
  then have a: "snd (stateOf (invokeFileWatchers meddlingEnv ?p Changed (pairWorld, [])))
       = [FileWatcherCall 1 ?p Changed, FileWatcherCall 2 ?p Changed]"
    by (simp add: at del: invokeFileWatchers.simps)
  have b: "fileWatchersMap (fst (stateOf (invokeFileWatchers meddlingEnv ?p Changed
        (pairWorld, [])))) ?p = Some [1, 3]"
    by (simp add: pairWorld_def meddlingEnv_def example_simps)
  from ws a b show ?thesis by blast
qed

text \<open>
  C9. Claimed: \<open>getWatcher\<close> never faults, whatever the shape of the handle. A handle
  without a \<^verbatim>\<open>watchFileSystem\<close> property makes it read a property of \<^verbatim>\<open>undefined\<close>.
\<close>

theorem getWatcher_faults_without_watchFileSystem:
  "getWatcher (JSObject [(''name'', JSString ''compiler'')]) = Inl TypeError"
  by (simp add: getWatcher_def)

text \<open>
  C9, as amended. For every handle whose \<^verbatim>\<open>watchFileSystem\<close> property is neither \<^verbatim>\<open>undefined\<close>
  nor \<^verbatim>\<open>null\<close>, \<open>getWatcher\<close> does not fault: it returns \<^verbatim>\<open>watchFileSystem.watcher\<close> if that
  is present (truthy), otherwise \<^verbatim>\<open>watchFileSystem.wfs.watcher\<close> if \<^verbatim>\<open>watchFileSystem.wfs\<close>
  is present, and otherwise the absent (falsy) \<^verbatim>\<open>watchFileSystem.wfs\<close>.
\<close>

theorem getWatcher_probes_two_shapes:
  assumes "getProperty compiler ''watchFileSystem'' = Inr watchFileSystem"
    and "watchFileSystem \<noteq> JSUndefined" and "watchFileSystem \<noteq> JSNull"
  shows "getWatcher compiler = Inr
     (if truthy (property watchFileSystem ''watcher'') then property watchFileSystem ''watcher''
      else if truthy (property watchFileSystem ''wfs'')
           then property (property watchFileSystem ''wfs'') ''watcher''
           else property watchFileSystem ''wfs'')"
  using assms
  by (cases watchFileSystem; cases "property watchFileSystem ''wfs''")
     (auto simp: getWatcher_def property_def split: option.splits sum.splits)

theorem getWatcher_probes_two_shapes_witness:
  "getWatcher (JSObject [(''watchFileSystem'', JSObject [(''watcher'', JSEmitter 1)])])
     = Inr (JSEmitter 1)
   \<and> getWatcher (JSObject [(''watchFileSystem'',
        JSObject [(''wfs'', JSObject [(''watcher'', JSEmitter 2)])])]) = Inr (JSEmitter 2)
   \<and> getWatcher (JSObject [(''watchFileSystem'', JSObject [])]) = Inr JSUndefined"
  using getWatcher_probes_two_shapes
          [of "JSObject [(''watchFileSystem'', JSObject [(''watcher'', JSEmitter 1)])]"
              "JSObject [(''watcher'', JSEmitter 1)]"]
        getWatcher_probes_two_shapes
          [of "JSObject [(''watchFileSystem'',
                 JSObject [(''wfs'', JSObject [(''watcher'', JSEmitter 2)])])]"
              "JSObject [(''wfs'', JSObject [(''watcher'', JSEmitter 2)])]"]
        getWatcher_probes_two_shapes
          [of "JSObject [(''watchFileSystem'', JSObject [])]" "JSObject []"]
  by (simp add: property_def)

text \<open>
  C10. Claimed: the change notification and the delete notification invoke all matching
  directory watchers, the non-recursive ones of the parent and the recursive ones of the
  ancestors, before any file watcher of the path. The ancestor walk leaves at the root
  without looking it up (the defect of C1), so the recursive watcher of the root has not
  run, and never runs, when the file watchers are called: with the watchers of C1 and a
  file watcher 7 on \<^verbatim>\<open>/a/b/c.txt\<close>, both notifications call the directory watchers 4, 3
  and 2 and then the file watcher 7, and the recursive watcher 1 on \<^verbatim>\<open>/\<close> is not called.
\<close>

theorem file_watcher_called_without_root_recursive_watcher:
  "recursiveDirectoryWatchersMap ancestorsFileWorld ''/'' = Some [1]
   \<and> fileWatchersMap ancestorsFileWorld ''/a/b/c.txt'' = Some [7]
   \<and> snd (stateOf (invokeFileChanged idleEnv ''/a/b/c.txt'' (ancestorsFileWorld, []))) =
     [DirectoryWatcherCall 4 ''/a/b/c.txt'', DirectoryWatcherCall 3 ''/a/b/c.txt'',
      DirectoryWatcherCall 2 ''/a/b/c.txt'', FileWatcherCall 7 ''/a/b/c.txt'' Changed]
   \<and> snd (stateOf (invokeFileDeleted idleEnv ''/a/b/c.txt'' (ancestorsFileWorld, []))) =
     [DirectoryWatcherCall 4 ''/a/b/c.txt'', DirectoryWatcherCall 3 ''/a/b/c.txt'',
      DirectoryWatcherCall 2 ''/a/b/c.txt'', FileWatcherCall 7 ''/a/b/c.txt'' Deleted]"
  by (simp add: ancestorsFileWorld_def ancestorsWorld_def example_simps)

text \<open>
  What does hold of the order, whatever the callbacks do: either notification extends the
  trace by calls of directory watchers followed by calls of file watchers, all for the
  normalised path, and a file watcher is only called once \<open>invokeDirectoryWatchers\<close> has
  returned. For callbacks that only observe, the directory calls are those of the watchers
  that the walk of the code reaches (\<open>directoryCalls\<close>: the non-recursive ones of the
  parent, then the recursive ones of the ancestors below a directory that is its own
  parent, which leaves out the root), followed by those of all the file watchers of the
  path.
\<close>

lemma directory_calls_precede_file_calls:
  "(\<exists>ds fs. snd (stateOf (invokeFileChanged env path (w, tr))) = tr @ ds @ fs
       \<and> list_all (isDirectoryCall (normalizePath env path)) ds
       \<and> list_all (isFileCall (normalizePath env path)) fs
       \<and> (fs \<noteq> [] \<longrightarrow> (\<exists>w1. invokeDirectoryWatchers env (normalizePath env path) (w, tr)
                                  = Returned (w1, tr @ ds))))
   \<and> (\<exists>ds fs. snd (stateOf (invokeFileDeleted env path (w, tr))) = tr @ ds @ fs
       \<and> list_all (isDirectoryCall (normalizePath env path)) ds
       \<and> list_all (isFileCall (normalizePath env path)) fs
       \<and> (fs \<noteq> [] \<longrightarrow> (\<exists>w1. invokeDirectoryWatchers env (normalizePath env path) (w, tr)
                                  = Returned (w1, tr @ ds))))
   \<and> (observers env \<longrightarrow>
         (\<exists>w'. invokeFileChanged env path (w, tr)
            = Returned (w', tr @ directoryCalls w (normalizePath env path)
                 @ fileCalls w (normalizePath env path)
                     (if markedDeleted w (normalizePath env path) then Created else Changed))))
   \<and> (observers env \<and> \<not> markedDeleted w (normalizePath env path) \<longrightarrow>
         (\<exists>w'. invokeFileDeleted env path (w, tr)
            = Returned (w', tr @ directoryCalls w (normalizePath env path)
                 @ fileCalls w (normalizePath env path) Deleted)))"
proof (intro conjI impI)
  show "\<exists>ds fs. snd (stateOf (invokeFileChanged env path (w, tr))) = tr @ ds @ fs
       \<and> list_all (isDirectoryCall (normalizePath env path)) ds
       \<and> list_all (isFileCall (normalizePath env path)) fs
       \<and> (fs \<noteq> [] \<longrightarrow> (\<exists>w1. invokeDirectoryWatchers env (normalizePath env path) (w, tr)
                                  = Returned (w1, tr @ ds)))"
    unfolding invokeFileChanged_def Let_def
    by (rule directory_then_file) (rule continuation_changed_shape)
  show "\<exists>ds fs. snd (stateOf (invokeFileDeleted env path (w, tr))) = tr @ ds @ fs
       \<and> list_all (isDirectoryCall (normalizePath env path)) ds
       \<and> list_all (isFileCall (normalizePath env path)) fs
       \<and> (fs \<noteq> [] \<longrightarrow> (\<exists>w1. invokeDirectoryWatchers env (normalizePath env path) (w, tr)
                                  = Returned (w1, tr @ ds)))"
  proof (cases "markedDeleted w (normalizePath env path)")
    case True
    then show ?thesis
      by (intro exI[of _ "[]"]) (simp add: invokeFileDeleted_def)
  next
    case False
    then show ?thesis
      unfolding invokeFileDeleted_def Let_def
      by (simp del: invokeFileWatchers.simps)
         (rule directory_then_file, rule continuation_deleted_shape)
  qed
next
  assume "observers env"
  from invokeFileChanged_observers[OF this, of path w tr]
  show "\<exists>w'. invokeFileChanged env path (w, tr)
            = Returned (w', tr @ directoryCalls w (normalizePath env path)
                 @ fileCalls w (normalizePath env path)
                     (if markedDeleted w (normalizePath env path) then Created else Changed))"
    by blast
next
  assume "observers env \<and> \<not> markedDeleted w (normalizePath env path)"
  then have "observers env" and "\<not> markedDeleted w (normalizePath env path)" by blast+
  from invokeFileDeleted_observers[OF this, of tr]
  show "\<exists>w'. invokeFileDeleted env path (w, tr)
            = Returned (w', tr @ directoryCalls w (normalizePath env path)
                 @ fileCalls w (normalizePath env path) Deleted)"
    by blast
qed

lemma directory_calls_precede_file_calls_example:
  "observers idleEnv \<and> \<not> markedDeleted watchedWorld ''/src/a.ts''
   \<and> snd (stateOf (invokeFileChanged idleEnv ''/src/a.ts'' (watchedWorld, [])))
     = [DirectoryWatcherCall 2 ''/src/a.ts''] @ [FileWatcherCall 1 ''/src/a.ts'' Changed]
   \<and> snd (stateOf (invokeFileDeleted idleEnv ''/src/a.ts'' (watchedWorld, [])))
     = [DirectoryWatcherCall 2 ''/src/a.ts''] @ [FileWatcherCall 1 ''/src/a.ts'' Deleted]
   \<and> invokeDirectoryWatchers idleEnv ''/src/a.ts'' (watchedWorld, [])
     = Returned (watchedWorld, [DirectoryWatcherCall 2 ''/src/a.ts''])"
proof -
  let ?p = "''/src/a.ts''"
  note inst = directory_calls_precede_file_calls[of idleEnv ?p watchedWorld "[]"]
  have u: "\<not> markedDeleted watchedWorld (normalizePath idleEnv ?p)"
    using watchedWorld_unmarked by simp
  from inst observers_idleEnv
  obtain w1 where "invokeFileChanged idleEnv ?p (watchedWorld, [])
      = Returned (w1, [] @ directoryCalls watchedWorld (normalizePath idleEnv ?p)
           @ fileCalls watchedWorld (normalizePath idleEnv ?p)
               (if markedDeleted watchedWorld (normalizePath idleEnv ?p) then Created else Changed))"
    by blast
  with u have a: "snd (stateOf (invokeFileChanged idleEnv ?p (watchedWorld, [])))
     = [DirectoryWatcherCall 2 ?p] @ [FileWatcherCall 1 ?p Changed]"
    by (simp add: watchedWorld_calls)
  from inst observers_idleEnv u
  obtain w2 where "invokeFileDeleted idleEnv ?p (watchedWorld, [])
      = Returned (w2, [] @ directoryCalls watchedWorld (normalizePath idleEnv ?p)
           @ fileCalls watchedWorld (normalizePath idleEnv ?p) Deleted)"
    by blast
  then have b: "snd (stateOf (invokeFileDeleted idleEnv ?p (watchedWorld, [])))
     = [DirectoryWatcherCall 2 ?p] @ [FileWatcherCall 1 ?p Deleted]"
    by (simp add: watchedWorld_calls)
  have c: "invokeDirectoryWatchers idleEnv ?p (watchedWorld, [])
     = Returned (watchedWorld, [DirectoryWatcherCall 2 ?p])"
    by (simp add: watchedWorld_def example_simps)
  from a b c observers_idleEnv watchedWorld_unmarked show ?thesis by blast
qed


end
